theory Spec2Isabelle
  imports Main "HOL-Library.Word"
begin

unbundle bit_operations_syntax

section \<open>The hash-chain matchfinder of xpack\<close>

text \<open>
  This theory embeds \<^verbatim>\<open>src/xpack/lib/hc_matchfinder.h\<close>: the structure
  \<^verbatim>\<open>struct hc_matchfinder\<close>, \<^verbatim>\<open>hc_matchfinder_init\<close>,
  \<^verbatim>\<open>hc_matchfinder_longest_match\<close> and \<^verbatim>\<open>hc_matchfinder_skip_positions\<close>.

  Conventions of the embedding.
  \<^item> \<^verbatim>\<open>u8\<close> and \<^verbatim>\<open>u32\<close> are 8-bit and 32-bit words; arithmetic on them wraps.
  \<^item> The input buffer is a list of bytes. A buffer position (\<^verbatim>\<open>ptrdiff_t cur_pos\<close>, a pointer
    into the buffer) is a natural number; storing it in a table truncates it to 32 bits, as
    the assignment to a \<^verbatim>\<open>u32\<close> slot does.
  \<^item> C gives no meaning to a read past the end of the buffer or to an access past the end
    of a hash table. The model makes that outcome explicit: every function that reads the
    buffer or indexes a table returns an \<open>option\<close>, and \<open>None\<close> stands for an access
    outside the object. The code has no other failure: it contains no assertion and returns
    no error code.
  \<^item> The three tables are functions from the slot index to the stored value. Slots of the
    two hash tables are guarded by their sizes (\<open>2 ^ 15\<close> and \<open>2 ^ 16\<close>).
    \<^verbatim>\<open>next_tab\<close> is the flexible array member with one slot per buffer position; every slot
    of it that the code touches is a position the code also reads from the buffer in the
    same call, so the buffer guards cover it.
  \<^item> The pointer difference in \<^verbatim>\<open>count + 5 <= end_pos - cur_pos\<close> is taken in a signed type
    wider than 32 bits (a 64-bit \<^verbatim>\<open>ptrdiff_t\<close>); \<^verbatim>\<open>count + 5\<close> is computed in \<^verbatim>\<open>u32\<close>.
  \<^item> \<^verbatim>\<open>UNALIGNED_ACCESS_IS_FAST\<close> selects at compile time between two forms of the filter
    in the loop for longer matches; it is the boolean parameter \<open>fast\<close>.
  \<^item> \<^verbatim>\<open>prefetchw\<close> is a hint to the processor and has no counterpart.
\<close>

type_synonym u8 = "8 word"
type_synonym u32 = "32 word"

definition HC_MATCHFINDER_HASH3_ORDER :: nat where
  "HC_MATCHFINDER_HASH3_ORDER = 15"

definition HC_MATCHFINDER_HASH4_ORDER :: nat where
  "HC_MATCHFINDER_HASH4_ORDER = 16"

record hc_matchfinder =
  hash3_tab :: "nat \<Rightarrow> u32"
  hash4_tab :: "nat \<Rightarrow> u32"
  next_tab :: "nat \<Rightarrow> u32"

text \<open>
  \<^verbatim>\<open>memset(mf, 0, sizeof(*mf))\<close>: the size of a structure with a flexible array member
  leaves that member out, so the call clears the two hash tables and leaves \<^verbatim>\<open>next_tab\<close>
  as it was.
\<close>

definition hc_matchfinder_init :: "hc_matchfinder \<Rightarrow> hc_matchfinder" where
  "hc_matchfinder_init mf = mf\<lparr>hash3_tab := (\<lambda>_. 0), hash4_tab := (\<lambda>_. 0)\<rparr>"

subsection \<open>Reading the buffer\<close>

text \<open>A single byte \<^verbatim>\<open>p[i]\<close> of the buffer.\<close>

definition load_u8 :: "u8 list \<Rightarrow> nat \<Rightarrow> u8 option" where
  "load_u8 buf i = (if i < length buf then Some (buf ! i) else None)"

text \<open>The 32-bit value of four bytes in little-endian order.\<close>

definition le32 :: "u8 \<Rightarrow> u8 \<Rightarrow> u8 \<Rightarrow> u8 \<Rightarrow> u32" where
  "le32 b0 b1 b2 b3 =
     ucast b0 OR push_bit 8 (ucast b1) OR push_bit 16 (ucast b2) OR push_bit 24 (ucast b3)"

text \<open>
  Modelled from the spec: \<^verbatim>\<open>unaligned.h\<close> is not among the sources. The spec describes
  \<^verbatim>\<open>load_u32_unaligned\<close> as reading a fixed-width little-endian integer from an unaligned
  offset.
\<close>

definition load_u32_unaligned :: "u8 list \<Rightarrow> nat \<Rightarrow> u32 option" where
  "load_u32_unaligned buf i =
     (if i + 4 \<le> length buf
      then Some (le32 (buf ! i) (buf ! (i + 1)) (buf ! (i + 2)) (buf ! (i + 3)))
      else None)"

text \<open>
  Modelled from the spec: \<^verbatim>\<open>unaligned.h\<close> is not among the sources. \<^verbatim>\<open>load_u24_unaligned\<close>
  reads the 3-byte little-endian window that the short-match table hashes.
\<close>

definition load_u24_unaligned :: "u8 list \<Rightarrow> nat \<Rightarrow> u32 option" where
  "load_u24_unaligned buf i =
     (if i + 3 \<le> length buf
      then Some (le32 (buf ! i) (buf ! (i + 1)) (buf ! (i + 2)) 0)
      else None)"

text \<open>
  Modelled from the spec: \<^verbatim>\<open>unaligned.h\<close> is not among the sources. \<^verbatim>\<open>loaded_u32_to_u24\<close>
  keeps the first three bytes of a loaded 4-byte little-endian window.
\<close>

definition loaded_u32_to_u24 :: "u32 \<Rightarrow> u32" where
  "loaded_u32_to_u24 v = v AND 0xFFFFFF"

text \<open>
  Modelled from the spec: \<^verbatim>\<open>lz_hash.h\<close> is not among the sources. The spec describes a
  fast multiplicative hash reduced to the bit width of the table; the multiplier is the one
  of the xpack distribution.
\<close>

definition lz_hash :: "u32 \<Rightarrow> nat \<Rightarrow> u32" where
  "lz_hash seq num_bits = drop_bit (32 - num_bits) (seq * 0x1E35A7BD)"

text \<open>
  Modelled from the spec: \<^verbatim>\<open>lz_extend.h\<close> is not among the sources. The spec: match extension
  compares candidate and current windows forward from the point already known to match, up to
  \<^verbatim>\<open>max_len\<close>, returning the total equal run length. The model is the byte loop
  \<^verbatim>\<open>while (len < max_len && matchptr[len] == strptr[len]) len++;\<close>
\<close>

function lz_extend :: "u8 list \<Rightarrow> nat \<Rightarrow> nat \<Rightarrow> u32 \<Rightarrow> u32 \<Rightarrow> u32 option" where
  "lz_extend buf strpos matchpos len max_len =
     (if len < max_len then
        (case load_u8 buf (matchpos + unat len) of
           None \<Rightarrow> None
         | Some a \<Rightarrow>
             (case load_u8 buf (strpos + unat len) of
                None \<Rightarrow> None
              | Some b \<Rightarrow>
                  if a = b then lz_extend buf strpos matchpos (len + 1) max_len
                  else Some len))
      else Some len)"
  by pat_completeness auto
termination
proof (relation "measure (\<lambda>(buf, strpos, matchpos, len, max_len). unat max_len - unat len)")
  show "wf (measure (\<lambda>(buf, strpos, matchpos, len, max_len). unat max_len - unat len))"
    by simp
next
  fix buf :: "u8 list" and strpos matchpos :: nat and len max_len :: u32 and a b :: u8
  assume lt: "len < max_len"
  have "unat len < unat max_len"
    using lt by (simp add: word_less_nat_alt)
  moreover have "unat (len + 1) = unat len + 1"
    using lt by (metis (no_types, lifting) add.commute add_0 inc_i inc_le
        unat_plus_simple unsigned_0 unsigned_1 word_gt_0)
  ultimately show "((buf, strpos, matchpos, len + 1, max_len), (buf, strpos, matchpos, len, max_len))
      \<in> measure (\<lambda>(buf, strpos, matchpos, len, max_len). unat max_len - unat len)"
    by simp
qed

declare lz_extend.simps [simp del]

subsection \<open>The loops of the search\<close>

text \<open>
  Every loop of the search ends its iteration with
  \<^verbatim>\<open>cur_node4 = mf->next_tab[cur_node4]; if (!cur_node4 || !--depth_remaining) goto out;\<close>
  The counter is a \<^verbatim>\<open>u32\<close>: decremented from 0 it wraps to \<open>2 ^ 32 - 1\<close>. \<open>depth_fuel\<close> is
  the number of decrements after which the counter reaches 0; it is the measure by which the
  loops terminate.
\<close>

definition depth_fuel :: "u32 \<Rightarrow> nat" where
  "depth_fuel d = (if d = 0 then 2 ^ 32 else unat d)"

lemma unat_u32_less: "unat (x :: u32) < 4294967296"
  using unsigned_less [of x, where 'a = nat] by simp

lemma depth_fuel_decr: "(d :: u32) - 1 \<noteq> 0 \<Longrightarrow> depth_fuel (d - 1) < depth_fuel d"
proof (cases "d = 0")
  case True
  then show ?thesis
    using unat_u32_less [of "- 1"] by (simp add: depth_fuel_def)
next
  case False
  assume "d - 1 \<noteq> 0"
  then show ?thesis
    using False by (simp add: depth_fuel_def unat_minus_one unat_gt_0)
qed

text \<open>
  The first loop (\<^verbatim>\<open>No length 4 match found yet\<close>). The result is \<open>Some None\<close> when the
  loop leaves through \<^verbatim>\<open>goto out\<close>, and \<open>Some (Some (cur_node4, depth_remaining))\<close> when
  it leaves through \<^verbatim>\<open>break\<close>.
\<close>

function hc_first_loop ::
  "u8 list \<Rightarrow> hc_matchfinder \<Rightarrow> u32 \<Rightarrow> u32 \<Rightarrow> u32 \<Rightarrow> (u32 \<times> u32) option option" where
  "hc_first_loop buf mf seq4 cur_node4 depth_remaining =
     (case load_u32_unaligned buf (unat cur_node4) of
        None \<Rightarrow> None
      | Some v \<Rightarrow>
          if v = seq4 then Some (Some (cur_node4, depth_remaining))
          else if next_tab mf (unat cur_node4) = 0 \<or> depth_remaining - 1 = 0 then Some None
          else hc_first_loop buf mf seq4 (next_tab mf (unat cur_node4)) (depth_remaining - 1))"
  by pat_completeness auto
termination
  by (relation "measure (\<lambda>(buf, mf, seq4, cur_node4, d). depth_fuel d)")
    (simp_all add: depth_fuel_decr)

declare hc_first_loop.simps [simp del]

text \<open>
  The condition of the inner loop for longer matches, in its two compile-time forms. C's
  \<^verbatim>\<open>&&\<close> evaluates its second operand only when the first holds. The pointers
  \<^verbatim>\<open>matchptr + best_len - 3\<close> and \<^verbatim>\<open>in_next + best_len - 3\<close> must not lie before the
  buffer.
\<close>

definition hc_longer_candidate :: "bool \<Rightarrow> u8 list \<Rightarrow> nat \<Rightarrow> nat \<Rightarrow> u32 \<Rightarrow> bool option" where
  "hc_longer_candidate fast buf in_next matchpos best_len =
     (if fast then
        if matchpos + unat best_len < 3 \<or> in_next + unat best_len < 3 then None
        else
          (case load_u32_unaligned buf (matchpos + unat best_len - 3) of
             None \<Rightarrow> None
           | Some a \<Rightarrow>
               (case load_u32_unaligned buf (in_next + unat best_len - 3) of
                  None \<Rightarrow> None
                | Some b \<Rightarrow>
                    if a = b then
                      (case load_u32_unaligned buf matchpos of
                         None \<Rightarrow> None
                       | Some c \<Rightarrow>
                           (case load_u32_unaligned buf in_next of
                              None \<Rightarrow> None
                            | Some d \<Rightarrow> Some (c = d)))
                    else Some False))
      else
        (case load_u8 buf (matchpos + unat best_len) of
           None \<Rightarrow> None
         | Some a \<Rightarrow>
             (case load_u8 buf (in_next + unat best_len) of
                None \<Rightarrow> None
              | Some b \<Rightarrow> Some (a = b))))"

text \<open>The inner loop of \<^verbatim>\<open>Check for matches of length >= 5\<close>, with the results of the first loop.\<close>

function hc_reject_loop ::
  "bool \<Rightarrow> u8 list \<Rightarrow> hc_matchfinder \<Rightarrow> nat \<Rightarrow> u32 \<Rightarrow> u32 \<Rightarrow> u32 \<Rightarrow> (u32 \<times> u32) option option" where
  "hc_reject_loop fast buf mf in_next best_len cur_node4 depth_remaining =
     (case hc_longer_candidate fast buf in_next (unat cur_node4) best_len of
        None \<Rightarrow> None
      | Some ok \<Rightarrow>
          if ok then Some (Some (cur_node4, depth_remaining))
          else if next_tab mf (unat cur_node4) = 0 \<or> depth_remaining - 1 = 0 then Some None
          else hc_reject_loop fast buf mf in_next best_len
                 (next_tab mf (unat cur_node4)) (depth_remaining - 1))"
  by pat_completeness auto
termination
  by (relation "measure (\<lambda>(fast, buf, mf, in_next, best_len, cur_node4, d). depth_fuel d)")
    (simp_all add: depth_fuel_decr)

declare hc_reject_loop.simps [simp del]

lemma hc_reject_loop_fuel:
  "hc_reject_loop fast buf mf in_next best_len n d = Some (Some (n', d')) \<Longrightarrow>
     depth_fuel d' \<le> depth_fuel d"
proof (induction fast buf mf in_next best_len n d rule: hc_reject_loop.induct)
  case (1 fast buf mf in_next best_len n d)
  show ?case
  proof (cases "hc_longer_candidate fast buf in_next (unat n) best_len")
    case None
    with "1.prems" show ?thesis
      by (simp add: hc_reject_loop.simps [of fast buf mf in_next best_len n d])
  next
    case (Some ok)
    show ?thesis
    proof (cases "ok \<or> next_tab mf (unat n) = 0 \<or> d - 1 = 0")
      case True
      with "1.prems" Some show ?thesis
        by (auto simp add: hc_reject_loop.simps [of fast buf mf in_next best_len n d]
            split: if_splits)
    next
      case False
      then have a: "\<not> ok" and b: "\<not> (next_tab mf (unat n) = 0 \<or> d - 1 = 0)"
        by auto
      from "1.prems" Some False
      have rec: "hc_reject_loop fast buf mf in_next best_len (next_tab mf (unat n)) (d - 1)
              = Some (Some (n', d'))"
        by (simp add: hc_reject_loop.simps [of fast buf mf in_next best_len n d])
      have "depth_fuel d' \<le> depth_fuel (d - 1)"
        by (rule "1.IH" [OF Some a b rec])
      moreover have "depth_fuel (d - 1) < depth_fuel d"
        using False by (simp add: depth_fuel_decr)
      ultimately show ?thesis by simp
    qed
  qed
qed

text \<open>
  The outer loop of \<^verbatim>\<open>Check for matches of length >= 5\<close>. The result is the pair of
  \<^verbatim>\<open>best_len\<close> and the position \<^verbatim>\<open>best_matchptr - in_begin\<close> at the label \<^verbatim>\<open>out\<close>.
\<close>

function hc_longer_loop ::
  "bool \<Rightarrow> u8 list \<Rightarrow> hc_matchfinder \<Rightarrow> nat \<Rightarrow> u32 \<Rightarrow> u32 \<Rightarrow> u32 \<Rightarrow> u32 \<Rightarrow> u32 \<Rightarrow> nat
     \<Rightarrow> (u32 \<times> nat) option" where
  "hc_longer_loop fast buf mf in_next max_len nice_len cur_node4 depth_remaining best_len
       best_matchpos =
     (case hc_reject_loop fast buf mf in_next best_len cur_node4 depth_remaining of
        None \<Rightarrow> None
      | Some None \<Rightarrow> Some (best_len, best_matchpos)
      | Some (Some (node, depth)) \<Rightarrow>
          (case lz_extend buf in_next (unat node) (if fast then 4 else 0) max_len of
             None \<Rightarrow> None
           | Some len \<Rightarrow>
               if len > best_len \<and> len \<ge> nice_len then Some (len, unat node)
               else if next_tab mf (unat node) = 0 \<or> depth - 1 = 0
               then Some (if len > best_len then (len, unat node) else (best_len, best_matchpos))
               else hc_longer_loop fast buf mf in_next max_len nice_len
                      (next_tab mf (unat node)) (depth - 1)
                      (if len > best_len then len else best_len)
                      (if len > best_len then unat node else best_matchpos)))"
  by pat_completeness auto
termination
proof (relation "measure (\<lambda>(fast, buf, mf, in_next, max_len, nice_len, cur_node4, d, best_len,
    best_matchpos). depth_fuel d)", goal_cases)
  case 1
  show ?case by simp
next
  case (2 fast buf mf in_next max_len nice_len cur_node4 depth_remaining best_len best_matchpos
      r rr node depth len)
  then have "depth_fuel depth \<le> depth_fuel depth_remaining"
    using hc_reject_loop_fuel [of fast buf mf in_next best_len cur_node4 depth_remaining node depth]
    by simp
  moreover have "depth_fuel (depth - 1) < depth_fuel depth"
    using 2 by (simp add: depth_fuel_decr)
  ultimately show ?case by simp
qed

declare hc_longer_loop.simps [simp del]

subsection \<open>Longest-match search\<close>

text \<open>
  The part of \<^verbatim>\<open>hc_matchfinder_longest_match\<close> from \<^verbatim>\<open>if (best_len < 4)\<close> to the label
  \<^verbatim>\<open>out\<close>, on the tables as updated for the current position. \<open>cur_node3\<close> and
  \<open>cur_node4\<close> are the bucket heads read before the update. The result is the pair of
  \<^verbatim>\<open>best_len\<close> and the position of \<^verbatim>\<open>best_matchptr\<close>, which starts as \<^verbatim>\<open>in_next\<close>.
\<close>

definition hc_search ::
  "bool \<Rightarrow> u8 list \<Rightarrow> hc_matchfinder \<Rightarrow> nat \<Rightarrow> u32 \<Rightarrow> u32 \<Rightarrow> u32 \<Rightarrow> u32 \<Rightarrow> u32 \<Rightarrow> u32
     \<Rightarrow> (u32 \<times> nat) option" where
  "hc_search fast buf mf in_next best_len max_len nice_len depth_remaining cur_node3 cur_node4 =
     (if best_len < 4 then
        if cur_node3 = 0 then Some (best_len, in_next)
        else
          (case load_u32_unaligned buf in_next of
             None \<Rightarrow> None
           | Some seq4 \<Rightarrow>
               (case (if best_len < 3 then
                        (case load_u24_unaligned buf (unat cur_node3) of
                           None \<Rightarrow> None
                         | Some v \<Rightarrow>
                             if v = loaded_u32_to_u24 seq4 then Some (3, unat cur_node3)
                             else Some (best_len, in_next))
                      else Some (best_len, in_next)) of
                  None \<Rightarrow> None
                | Some (best_len3, best_matchpos3) \<Rightarrow>
                    if cur_node4 = 0 then Some (best_len3, best_matchpos3)
                    else
                      (case hc_first_loop buf mf seq4 cur_node4 depth_remaining of
                         None \<Rightarrow> None
                       | Some None \<Rightarrow> Some (best_len3, best_matchpos3)
                       | Some (Some (node, depth)) \<Rightarrow>
                           (case lz_extend buf in_next (unat node) 4 max_len of
                              None \<Rightarrow> None
                            | Some len \<Rightarrow>
                                if len \<ge> nice_len then Some (len, unat node)
                                else if next_tab mf (unat node) = 0 \<or> depth - 1 = 0
                                then Some (len, unat node)
                                else hc_longer_loop fast buf mf in_next max_len nice_len
                                       (next_tab mf (unat node)) (depth - 1) len (unat node)))))
      else if cur_node4 = 0 \<or> best_len \<ge> nice_len then Some (best_len, in_next)
      else hc_longer_loop fast buf mf in_next max_len nice_len cur_node4 depth_remaining
             best_len in_next)"

text \<open>
  The function itself. The result holds the returned length, the offset stored through
  \<^verbatim>\<open>offset_ret\<close>, the updated matchfinder and the updated \<^verbatim>\<open>next_hashes\<close>.
\<close>

definition hc_matchfinder_longest_match ::
  "bool \<Rightarrow> hc_matchfinder \<Rightarrow> u8 list \<Rightarrow> nat \<Rightarrow> u32 \<Rightarrow> u32 \<Rightarrow> u32 \<Rightarrow> u32 \<Rightarrow> u32 \<times> u32
     \<Rightarrow> (u32 \<times> u32 \<times> hc_matchfinder \<times> u32 \<times> u32) option" where
  "hc_matchfinder_longest_match fast mf in_begin cur_pos best_len max_len nice_len
       max_search_depth next_hashes =
     (if max_len < 5 then Some (best_len, 0, mf, next_hashes)
      else
        let hash3 = fst next_hashes; hash4 = snd next_hashes in
        if \<not> (unat hash3 < 2 ^ HC_MATCHFINDER_HASH3_ORDER \<and>
                unat hash4 < 2 ^ HC_MATCHFINDER_HASH4_ORDER) then None
        else
          let cur_node3 = hash3_tab mf (unat hash3);
              cur_node4 = hash4_tab mf (unat hash4);
              mf' = mf\<lparr>hash3_tab := (hash3_tab mf)(unat hash3 := word_of_nat cur_pos),
                       hash4_tab := (hash4_tab mf)(unat hash4 := word_of_nat cur_pos),
                       next_tab := (next_tab mf)(cur_pos := cur_node4)\<rparr>
          in
          (case load_u32_unaligned in_begin (cur_pos + 1) of
             None \<Rightarrow> None
           | Some next_seq4 \<Rightarrow>
               let next_seq3 = loaded_u32_to_u24 next_seq4;
                   next_hashes' = (lz_hash next_seq3 HC_MATCHFINDER_HASH3_ORDER,
                                   lz_hash next_seq4 HC_MATCHFINDER_HASH4_ORDER)
               in
               (case hc_search fast in_begin mf' cur_pos best_len max_len nice_len
                       max_search_depth cur_node3 cur_node4 of
                  None \<Rightarrow> None
                | Some (best_len', best_matchpos) \<Rightarrow>
                    Some (best_len', word_of_nat cur_pos - word_of_nat best_matchpos,
                          mf', next_hashes'))))"

subsection \<open>Skipping positions\<close>

text \<open>
  The \<^verbatim>\<open>do ... while (in_next != stop_ptr)\<close> loop. A recursive call is made only after the
  read at \<^verbatim>\<open>++in_next\<close> has succeeded, so the distance to the end of the buffer decreases.
\<close>

function hc_skip_loop ::
  "hc_matchfinder \<Rightarrow> u8 list \<Rightarrow> nat \<Rightarrow> nat \<Rightarrow> u32 \<Rightarrow> u32 \<Rightarrow> (hc_matchfinder \<times> u32 \<times> u32) option" where
  "hc_skip_loop mf in_begin in_next stop hash3 hash4 =
     (if \<not> (unat hash3 < 2 ^ HC_MATCHFINDER_HASH3_ORDER \<and>
              unat hash4 < 2 ^ HC_MATCHFINDER_HASH4_ORDER) then None
      else
        let mf' = mf\<lparr>hash3_tab := (hash3_tab mf)(unat hash3 := word_of_nat in_next),
                     next_tab := (next_tab mf)(in_next := hash4_tab mf (unat hash4)),
                     hash4_tab := (hash4_tab mf)(unat hash4 := word_of_nat in_next)\<rparr>
        in
        (case load_u32_unaligned in_begin (in_next + 1) of
           None \<Rightarrow> None
         | Some next_seq4 \<Rightarrow>
             let next_seq3 = loaded_u32_to_u24 next_seq4;
                 hash3' = lz_hash next_seq3 HC_MATCHFINDER_HASH3_ORDER;
                 hash4' = lz_hash next_seq4 HC_MATCHFINDER_HASH4_ORDER
             in
             if in_next + 1 \<noteq> stop then hc_skip_loop mf' in_begin (in_next + 1) stop hash3' hash4'
             else Some (mf', hash3', hash4')))"
  by pat_completeness auto
termination
  by (relation "measure (\<lambda>(mf, in_begin, in_next, stop, hash3, hash4). length in_begin - in_next)")
    (auto simp add: load_u32_unaligned_def split: if_splits)

declare hc_skip_loop.simps [simp del]

text \<open>
  The result holds the returned position \<^verbatim>\<open>stop_ptr - in_begin\<close>, the matchfinder and
  \<^verbatim>\<open>next_hashes\<close>.
\<close>

definition hc_matchfinder_skip_positions ::
  "hc_matchfinder \<Rightarrow> u8 list \<Rightarrow> nat \<Rightarrow> nat \<Rightarrow> u32 \<Rightarrow> u32 \<times> u32
     \<Rightarrow> (nat \<times> hc_matchfinder \<times> u32 \<times> u32) option" where
  "hc_matchfinder_skip_positions mf in_begin cur_pos end_pos count next_hashes =
     (let stop = cur_pos + unat count in
      if uint (count + 5) \<le> int end_pos - int cur_pos then
        (case hc_skip_loop mf in_begin cur_pos stop (fst next_hashes) (snd next_hashes) of
           None \<Rightarrow> None
         | Some (mf', hash3, hash4) \<Rightarrow> Some (stop, mf', hash3, hash4))
      else Some (stop, mf, next_hashes))"

subsection \<open>The forward scan\<close>

text \<open>
  A caller drives a forward scan over the buffer: a sequence of calls of the two functions
  on one matchfinder and one \<^verbatim>\<open>next_hashes\<close> array. \<open>Search\<close> carries \<^verbatim>\<open>cur_pos\<close>,
  \<^verbatim>\<open>best_len\<close>, \<^verbatim>\<open>max_len\<close>, \<^verbatim>\<open>nice_len\<close> and \<^verbatim>\<open>max_search_depth\<close>; \<open>Skip\<close> carries
  \<^verbatim>\<open>cur_pos\<close>, \<^verbatim>\<open>end_pos\<close> and \<^verbatim>\<open>count\<close>. \<open>run_calls\<close> threads the state through the calls
  and collects the (length, offset) results of the searches; \<open>increasing_calls q\<close> holds when
  the calls visit strictly increasing positions from \<open>q\<close> on, a skip covering \<^verbatim>\<open>count\<close>
  positions.
\<close>

datatype hc_call =
  Search nat u32 u32 u32 u32
| Skip nat nat u32

fun call_pos :: "hc_call \<Rightarrow> nat" where
  "call_pos (Search cur_pos best_len max_len nice_len max_search_depth) = cur_pos"
| "call_pos (Skip cur_pos end_pos count) = cur_pos"

fun call_end :: "hc_call \<Rightarrow> nat" where
  "call_end (Search cur_pos best_len max_len nice_len max_search_depth) = cur_pos + 1"
| "call_end (Skip cur_pos end_pos count) = cur_pos + unat count"

fun increasing_calls :: "nat \<Rightarrow> hc_call list \<Rightarrow> bool" where
  "increasing_calls q [] = True"
| "increasing_calls q (c # cs) = (q \<le> call_pos c \<and> increasing_calls (call_end c) cs)"

fun run_calls ::
  "bool \<Rightarrow> u8 list \<Rightarrow> hc_matchfinder \<times> u32 \<times> u32 \<Rightarrow> hc_call list
     \<Rightarrow> ((u32 \<times> u32) list \<times> hc_matchfinder \<times> u32 \<times> u32) option" where
  "run_calls fast buf s [] = Some ([], s)"
| "run_calls fast buf s (Search cur_pos best_len max_len nice_len max_search_depth # cs) =
     (case hc_matchfinder_longest_match fast (fst s) buf cur_pos best_len max_len nice_len
             max_search_depth (snd s) of
        None \<Rightarrow> None
      | Some (len, offset, s') \<Rightarrow>
          (case run_calls fast buf s' cs of
             None \<Rightarrow> None
           | Some (rs, s'') \<Rightarrow> Some ((len, offset) # rs, s'')))"
| "run_calls fast buf s (Skip cur_pos end_pos count # cs) =
     (case hc_matchfinder_skip_positions (fst s) buf cur_pos end_pos count (snd s) of
        None \<Rightarrow> None
      | Some (stop, s') \<Rightarrow> run_calls fast buf s' cs)"

text \<open>
  \<open>calls_end q cs\<close> is the first position that a call after \<open>cs\<close> may visit.
  \<open>call_in_contract buf c\<close> holds when the call respects the contract stated in the
  comments of the code: \<^verbatim>\<open>max_len\<close> does not exceed the bytes that remain,
  \<^verbatim>\<open>nice_len <= max_len\<close>, \<^verbatim>\<open>end_pos\<close> is within the buffer, \<^verbatim>\<open>count > 0\<close> (and
  \<^verbatim>\<open>count + 5\<close> does not wrap). \<open>hashes_in_range\<close> holds of a \<^verbatim>\<open>next_hashes\<close> array
  whose two entries are hash codes of the two tables.
\<close>

fun calls_end :: "nat \<Rightarrow> hc_call list \<Rightarrow> nat" where
  "calls_end q [] = q"
| "calls_end q (c # cs) = calls_end (call_end c) cs"

fun call_in_contract :: "u8 list \<Rightarrow> hc_call \<Rightarrow> bool" where
  "call_in_contract buf (Search cur_pos best_len max_len nice_len max_search_depth) \<longleftrightarrow>
     cur_pos + unat max_len \<le> length buf \<and> nice_len \<le> max_len"
| "call_in_contract buf (Skip cur_pos end_pos count) \<longleftrightarrow>
     end_pos \<le> length buf \<and> count \<noteq> 0 \<and> unat count + 5 < 2 ^ 32"

definition hashes_in_range :: "u32 \<times> u32 \<Rightarrow> bool" where
  "hashes_in_range nh \<longleftrightarrow>
     unat (fst nh) < 2 ^ HC_MATCHFINDER_HASH3_ORDER \<and> unat (snd nh) < 2 ^ HC_MATCHFINDER_HASH4_ORDER"

subsection \<open>Notions the properties are stated with\<close>

text \<open>
  \<open>bytes_equal buf p m L\<close>: the \<open>L\<close> bytes of the buffer at \<open>p\<close> and the \<open>L\<close> bytes at
  \<open>m\<close> lie inside the buffer and are the same bytes.
\<close>

definition bytes_equal :: "u8 list \<Rightarrow> nat \<Rightarrow> nat \<Rightarrow> nat \<Rightarrow> bool" where
  "bytes_equal buf p m L \<longleftrightarrow>
     p + L \<le> length buf \<and> m + L \<le> length buf \<and> take L (drop p buf) = take L (drop m buf)"

text \<open>The same, byte by byte: \<open>eq_upto buf p m k\<close>.\<close>

definition eq_upto :: "u8 list \<Rightarrow> nat \<Rightarrow> nat \<Rightarrow> nat \<Rightarrow> bool" where
  "eq_upto buf p m k \<longleftrightarrow>
     (\<forall>i<k. p + i < length buf \<and> m + i < length buf \<and> buf ! (p + i) = buf ! (m + i))"

text \<open>
  \<open>chain_desc nt n\<close>: the walk \<open>n\<close>, \<open>nt[n]\<close>, \<open>nt[nt[n]]\<close>, ... visits strictly decreasing
  positions and ends at the sentinel 0. \<open>chain_below nt q n\<close>: moreover every position the walk
  visits is below \<open>q\<close>.
\<close>

function chain_desc :: "(nat \<Rightarrow> u32) \<Rightarrow> u32 \<Rightarrow> bool" where
  "chain_desc nt n =
     (if n = 0 then True
      else if nt (unat n) < n then chain_desc nt (nt (unat n))
      else False)"
  by pat_completeness auto
termination
  by (relation "measure (\<lambda>(nt, n). unat n)") (simp_all add: word_less_nat_alt)

declare chain_desc.simps [simp del]

function chain_below :: "(nat \<Rightarrow> u32) \<Rightarrow> nat \<Rightarrow> u32 \<Rightarrow> bool" where
  "chain_below nt q n =
     (if n = 0 then True
      else if unat n < q \<and> nt (unat n) < n then chain_below nt q (nt (unat n))
      else False)"
  by pat_completeness auto
termination
  by (relation "measure (\<lambda>(nt, q, n). unat n)") (simp_all add: word_less_nat_alt)

declare chain_below.simps [simp del]

text \<open>
  \<open>mf_below q mf\<close>: every position stored in a bucket of the short-match table is below
  \<open>q\<close> or is the value 0, and the chain of every bucket of the long-match table descends
  through positions below \<open>q\<close> to the sentinel.
\<close>

definition mf_below :: "nat \<Rightarrow> hc_matchfinder \<Rightarrow> bool" where
  "mf_below q mf \<longleftrightarrow>
     (\<forall>i. hash3_tab mf i = 0 \<or> unat (hash3_tab mf i) < q) \<and>
     (\<forall>i. chain_below (next_tab mf) q (hash4_tab mf i))"

text \<open>
  The insertion of a single position, in the words of the spec (steps 1 to 4 of the search):
  with fewer than 5 bytes of lookahead the position is not inserted and nothing changes;
  otherwise the short-match bucket is overwritten with the position, the position is
  prepended to the chain of the long-match bucket, and the hashes of the next position are
  computed. \<open>hc_insert_positions\<close> inserts \<open>count\<close> successive positions one by one.
\<close>

definition hc_insert_position ::
  "u8 list \<Rightarrow> nat \<Rightarrow> hc_matchfinder \<times> u32 \<times> u32 \<Rightarrow> (hc_matchfinder \<times> u32 \<times> u32) option" where
  "hc_insert_position buf p s =
     (let mf = fst s; hash3 = fst (snd s); hash4 = snd (snd s) in
      if length buf < p + 5 then Some s
      else if \<not> (unat hash3 < 2 ^ HC_MATCHFINDER_HASH3_ORDER \<and>
                   unat hash4 < 2 ^ HC_MATCHFINDER_HASH4_ORDER) then None
      else
        (case load_u32_unaligned buf (p + 1) of
           None \<Rightarrow> None
         | Some next_seq4 \<Rightarrow>
             Some (mf\<lparr>hash3_tab := (hash3_tab mf)(unat hash3 := word_of_nat p),
                      hash4_tab := (hash4_tab mf)(unat hash4 := word_of_nat p),
                      next_tab := (next_tab mf)(p := hash4_tab mf (unat hash4))\<rparr>,
                   lz_hash (loaded_u32_to_u24 next_seq4) HC_MATCHFINDER_HASH3_ORDER,
                   lz_hash next_seq4 HC_MATCHFINDER_HASH4_ORDER)))"

fun hc_insert_positions ::
  "u8 list \<Rightarrow> nat \<Rightarrow> nat \<Rightarrow> hc_matchfinder \<times> u32 \<times> u32 \<Rightarrow> (hc_matchfinder \<times> u32 \<times> u32) option" where
  "hc_insert_positions buf p 0 s = Some s"
| "hc_insert_positions buf p (Suc k) s =
     (case hc_insert_position buf p s of
        None \<Rightarrow> None
      | Some s' \<Rightarrow> hc_insert_positions buf (p + 1) k s')"

subsection \<open>The scenarios of the spec\<close>

text \<open>
  The buffers of the concrete scenarios of the spec: \<^verbatim>\<open>AAAAAAAAAA\<close>, \<^verbatim>\<open>ABCXABCYZ\<close> and
  \<^verbatim>\<open>ABCDEFGHIJ\<close>; a matchfinder whose memory is all zero; and two states that the forward
  scan reaches on the first buffer: after a skip over the positions 0 to 3, and after
  searches at the positions 0 and 1.
\<close>

definition mf_zero :: hc_matchfinder where
  "mf_zero = \<lparr>hash3_tab = (\<lambda>_. 0), hash4_tab = (\<lambda>_. 0), next_tab = (\<lambda>_. 0)\<rparr>"

definition scenario1_buf :: "u8 list" where
  "scenario1_buf = [65, 65, 65, 65, 65, 65, 65, 65, 65, 65]"

definition scenario3_buf :: "u8 list" where
  "scenario3_buf = [65, 66, 67, 88, 65, 66, 67, 89, 90]"


definition scenario1_scan :: "hc_matchfinder \<times> u32 \<times> u32" where
  "scenario1_scan =
     snd (the (run_calls True scenario1_buf (hc_matchfinder_init mf_zero, 0, 0) [Skip 0 10 4]))"

definition scenario1_searched :: "hc_matchfinder \<times> u32 \<times> u32" where
  "scenario1_searched =
     snd (the (run_calls True scenario1_buf (hc_matchfinder_init mf_zero, 0, 0)
       [Search 0 0 10 10 4, Search 1 0 9 9 4]))"

section \<open>Bytes, loads and match extension\<close>

text \<open>
  Two loaded windows are equal exactly when their bytes are, and the match extension returns
  a length up to which the two windows agree.
\<close>

lemma le32_b0: "ucast (le32 b0 b1 b2 b3) = b0"
  by (rule bit_word_eqI) (auto simp add: le32_def bit_simps dest: bit_imp_le_length)

lemma le32_b1: "ucast (drop_bit 8 (le32 b0 b1 b2 b3)) = b1"
  by (rule bit_word_eqI) (auto simp add: le32_def bit_simps dest: bit_imp_le_length)

lemma le32_b2: "ucast (drop_bit 16 (le32 b0 b1 b2 b3)) = b2"
  by (rule bit_word_eqI) (auto simp add: le32_def bit_simps dest: bit_imp_le_length)

lemma le32_b3: "ucast (drop_bit 24 (le32 b0 b1 b2 b3)) = b3"
  by (rule bit_word_eqI) (auto simp add: le32_def bit_simps dest: bit_imp_le_length)

lemma le32_inj:
  "le32 a0 a1 a2 a3 = le32 b0 b1 b2 b3 \<longleftrightarrow> a0 = b0 \<and> a1 = b1 \<and> a2 = b2 \<and> a3 = b3"
  by (metis le32_b0 le32_b1 le32_b2 le32_b3)

lemma mask24: "(0xFFFFFF :: u32) = mask 24"
  by (simp add: mask_eq_exp_minus_1)

lemma le32_and24: "loaded_u32_to_u24 (le32 b0 b1 b2 b3) = le32 b0 b1 b2 0"
  unfolding loaded_u32_to_u24_def mask24
  by (rule bit_word_eqI) (auto simp add: le32_def bit_simps dest: bit_imp_le_length)

lemma eq_upto_Suc:
  "eq_upto buf p m (Suc k) \<longleftrightarrow>
     eq_upto buf p m k \<and> p + k < length buf \<and> m + k < length buf \<and> buf ! (p + k) = buf ! (m + k)"
  by (auto simp add: eq_upto_def less_Suc_eq)

lemma eq_upto_0: "eq_upto buf p m 0"
  by (simp add: eq_upto_def)

lemma eq_upto_4:
  "eq_upto buf p m 4 \<longleftrightarrow>
     p + 4 \<le> length buf \<and> m + 4 \<le> length buf \<and> buf ! p = buf ! m \<and>
     buf ! (p + 1) = buf ! (m + 1) \<and> buf ! (p + 2) = buf ! (m + 2) \<and>
     buf ! (p + 3) = buf ! (m + 3)"
proof -
  have "eq_upto buf p m 4 = eq_upto buf p m (Suc (Suc (Suc (Suc 0))))"
    by (simp add: eval_nat_numeral)
  then show ?thesis
    by (auto simp add: eq_upto_Suc eq_upto_0 eval_nat_numeral)
qed

lemma eq_upto_3:
  "eq_upto buf p m 3 \<longleftrightarrow>
     p + 3 \<le> length buf \<and> m + 3 \<le> length buf \<and> buf ! p = buf ! m \<and>
     buf ! (p + 1) = buf ! (m + 1) \<and> buf ! (p + 2) = buf ! (m + 2)"
proof -
  have "eq_upto buf p m 3 = eq_upto buf p m (Suc (Suc (Suc 0)))"
    by (simp add: eval_nat_numeral)
  then show ?thesis
    by (auto simp add: eq_upto_Suc eq_upto_0 eval_nat_numeral)
qed

lemma eq_upto_bytes_equal:
  assumes "eq_upto buf p m k" and "0 < k"
  shows "bytes_equal buf p m k"
proof -
  from assms have "k - 1 < k" by simp
  with assms(1) have "p + (k - 1) < length buf" and "m + (k - 1) < length buf"
    unfolding eq_upto_def by blast+
  with \<open>0 < k\<close> have lens: "p + k \<le> length buf" "m + k \<le> length buf"
    by simp_all
  have "take k (drop p buf) = take k (drop m buf)"
  proof (rule nth_equalityI)
    show "length (take k (drop p buf)) = length (take k (drop m buf))"
      using lens by simp
  next
    fix i
    assume "i < length (take k (drop p buf))"
    then have "i < k" by simp
    with assms(1) lens show "take k (drop p buf) ! i = take k (drop m buf) ! i"
      by (simp add: eq_upto_def)
  qed
  with lens show ?thesis
    by (simp add: bytes_equal_def)
qed

lemma load_u32_eq:
  assumes "load_u32_unaligned buf m = Some v" and "load_u32_unaligned buf p = Some w"
  shows "v = w \<longleftrightarrow> eq_upto buf p m 4"
  using assms
  by (auto simp add: load_u32_unaligned_def le32_inj eq_upto_4 split: if_splits)

lemma load_u24_eq:
  assumes "load_u24_unaligned buf m = Some v" and "load_u32_unaligned buf p = Some w"
  shows "v = loaded_u32_to_u24 w \<longleftrightarrow> eq_upto buf p m 3"
  using assms
  by (auto simp add: load_u32_unaligned_def load_u24_unaligned_def le32_and24 le32_inj eq_upto_3
      split: if_splits)

lemma u32_succ: "(len :: u32) < max_len \<Longrightarrow> unat (len + 1) = Suc (unat len)"
  by (metis (no_types, lifting) add.commute add_0 inc_i inc_le
        unat_plus_simple unsigned_0 unsigned_1 word_gt_0 Suc_eq_plus1)

lemma lz_extend_sound:
  "lz_extend buf p m len max_len = Some L \<Longrightarrow> len \<le> max_len \<Longrightarrow> eq_upto buf p m (unat len) \<Longrightarrow>
     len \<le> L \<and> L \<le> max_len \<and> eq_upto buf p m (unat L)"
proof (induction buf p m len max_len rule: lz_extend.induct)
  case (1 buf strpos matchpos len max_len)
  show ?case
  proof (cases "len < max_len")
    case False
    with "1.prems" show ?thesis
      by (simp add: lz_extend.simps [of buf strpos matchpos len max_len])
  next
    case lt: True
    from "1.prems"(1) lt obtain a b where
      la: "load_u8 buf (matchpos + unat len) = Some a" and
      lb: "load_u8 buf (strpos + unat len) = Some b"
      by (auto simp add: lz_extend.simps [of buf strpos matchpos len max_len]
          split: option.splits)
    show ?thesis
    proof (cases "a = b")
      case False
      with "1.prems" lt la lb show ?thesis
        by (simp add: lz_extend.simps [of buf strpos matchpos len max_len])
    next
      case True
      from "1.prems"(1) lt la lb True
      have rec: "lz_extend buf strpos matchpos (len + 1) max_len = Some L"
        by (simp add: lz_extend.simps [of buf strpos matchpos len max_len])
      have le: "len + 1 \<le> max_len"
        using lt by (simp add: inc_le)
      have "eq_upto buf strpos matchpos (unat (len + 1))"
        using "1.prems"(3) la lb True
        by (auto simp add: u32_succ [OF lt] eq_upto_Suc load_u8_def split: if_splits)
      then have "len + 1 \<le> L \<and> L \<le> max_len \<and> eq_upto buf strpos matchpos (unat L)"
        by (rule "1.IH" [OF lt la lb True rec le])
      moreover have "len \<le> len + 1"
        using lt u32_succ [OF lt] by (simp add: word_le_nat_alt)
      ultimately show ?thesis by auto
    qed
  qed
qed

section \<open>Chains and the loops of the search\<close>

text \<open>
  On a descending chain below \<open>q\<close>, every candidate that a loop of the search stops at is
  a nonzero position below \<open>q\<close>; the search returns \<^verbatim>\<open>best_len\<close> unchanged with
  \<^verbatim>\<open>best_matchptr\<close> at \<^verbatim>\<open>in_next\<close>, or a longer length, at most \<^verbatim>\<open>max_len\<close>, with a
  candidate whose bytes agree with the current ones up to that length.
\<close>

lemma chain_below_0: "chain_below nt q 0"
  by (simp add: chain_below.simps)

lemma chain_below_step:
  "n \<noteq> 0 \<Longrightarrow>
     chain_below nt q n \<longleftrightarrow> unat n < q \<and> nt (unat n) < n \<and> chain_below nt q (nt (unat n))"
  by (subst chain_below.simps) auto

lemma chain_below_mono: "chain_below nt q n \<Longrightarrow> q \<le> q' \<Longrightarrow> chain_below nt q' n"
proof (induction nt q n rule: chain_below.induct)
  case (1 nt q n)
  show ?case
  proof (cases "n = 0")
    case True
    then show ?thesis by (simp add: chain_below_0)
  next
    case False
    with "1.prems" have a: "unat n < q \<and> nt (unat n) < n" and b: "chain_below nt q (nt (unat n))"
      by (simp_all add: chain_below_step)
    have "chain_below nt q' (nt (unat n))"
      by (rule "1.IH" [OF False a b "1.prems"(2)])
    with False a "1.prems"(2) show ?thesis
      by (simp add: chain_below_step)
  qed
qed

lemma chain_below_upd: "chain_below nt q n \<Longrightarrow> q \<le> p \<Longrightarrow> chain_below (nt(p := v)) q n"
proof (induction nt q n rule: chain_below.induct)
  case (1 nt q n)
  show ?case
  proof (cases "n = 0")
    case True
    then show ?thesis by (simp add: chain_below_0)
  next
    case False
    with "1.prems" have a: "unat n < q \<and> nt (unat n) < n" and b: "chain_below nt q (nt (unat n))"
      by (simp_all add: chain_below_step)
    have "chain_below (nt(p := v)) q (nt (unat n))"
      by (rule "1.IH" [OF False a b "1.prems"(2)])
    moreover have "(nt(p := v)) (unat n) = nt (unat n)"
      using a "1.prems"(2) by simp
    ultimately show ?thesis
      using False a chain_below_step [of n "nt(p := v)" q] by metis
  qed
qed

lemma chain_below_desc: "chain_below nt q n \<Longrightarrow> chain_desc nt n"
proof (induction nt q n rule: chain_below.induct)
  case (1 nt q n)
  show ?case
  proof (cases "n = 0")
    case True
    then show ?thesis by (simp add: chain_desc.simps)
  next
    case False
    with "1.prems" have a: "unat n < q \<and> nt (unat n) < n" and b: "chain_below nt q (nt (unat n))"
      by (simp_all add: chain_below_step)
    have "chain_desc nt (nt (unat n))"
      by (rule "1.IH" [OF False a b])
    with False a show ?thesis
      by (subst chain_desc.simps) simp
  qed
qed

lemma hc_first_loop_sound:
  "hc_first_loop buf mf seq4 n d = Some (Some (node, depth)) \<Longrightarrow> n \<noteq> 0 \<Longrightarrow>
     chain_below (next_tab mf) q n \<Longrightarrow>
     node \<noteq> 0 \<and> unat node < q \<and> chain_below (next_tab mf) q node \<and>
     load_u32_unaligned buf (unat node) = Some seq4"
proof (induction buf mf seq4 n d rule: hc_first_loop.induct)
  case (1 buf mf seq4 n d)
  from "1.prems"(1) obtain v where v: "load_u32_unaligned buf (unat n) = Some v"
    by (auto simp add: hc_first_loop.simps [of buf mf seq4 n d] split: option.splits)
  show ?case
  proof (cases "v = seq4")
    case True
    with "1.prems" v show ?thesis
      by (auto simp add: hc_first_loop.simps [of buf mf seq4 n d] chain_below_step)
  next
    case False
    show ?thesis
    proof (cases "next_tab mf (unat n) = 0 \<or> d - 1 = 0")
      case True
      with "1.prems"(1) v False show ?thesis
        by (simp add: hc_first_loop.simps [of buf mf seq4 n d])
    next
      case stop: False
      from "1.prems"(1) v False stop
      have rec: "hc_first_loop buf mf seq4 (next_tab mf (unat n)) (d - 1)
                   = Some (Some (node, depth))"
        by (simp add: hc_first_loop.simps [of buf mf seq4 n d])
      from stop have nz: "next_tab mf (unat n) \<noteq> 0" by simp
      from "1.prems"(2,3) have cb: "chain_below (next_tab mf) q (next_tab mf (unat n))"
        by (simp add: chain_below_step)
      show ?thesis
        by (rule "1.IH" [OF v False stop rec nz cb])
    qed
  qed
qed

lemma hc_reject_loop_sound:
  "hc_reject_loop fast buf mf in_next best_len n d = Some (Some (node, depth)) \<Longrightarrow> n \<noteq> 0 \<Longrightarrow>
     chain_below (next_tab mf) q n \<Longrightarrow>
     node \<noteq> 0 \<and> unat node < q \<and> chain_below (next_tab mf) q node \<and>
     hc_longer_candidate fast buf in_next (unat node) best_len = Some True"
proof (induction fast buf mf in_next best_len n d rule: hc_reject_loop.induct)
  case (1 fast buf mf in_next best_len n d)
  from "1.prems"(1) obtain ok where
    ok: "hc_longer_candidate fast buf in_next (unat n) best_len = Some ok"
    by (auto simp add: hc_reject_loop.simps [of fast buf mf in_next best_len n d]
        split: option.splits)
  show ?case
  proof (cases ok)
    case True
    with "1.prems" ok show ?thesis
      by (auto simp add: hc_reject_loop.simps [of fast buf mf in_next best_len n d]
          chain_below_step)
  next
    case False
    show ?thesis
    proof (cases "next_tab mf (unat n) = 0 \<or> d - 1 = 0")
      case True
      with "1.prems"(1) ok False show ?thesis
        by (simp add: hc_reject_loop.simps [of fast buf mf in_next best_len n d])
    next
      case stop: False
      from "1.prems"(1) ok False stop
      have rec: "hc_reject_loop fast buf mf in_next best_len (next_tab mf (unat n)) (d - 1)
                   = Some (Some (node, depth))"
        by (simp add: hc_reject_loop.simps [of fast buf mf in_next best_len n d])
      from stop have nz: "next_tab mf (unat n) \<noteq> 0" by simp
      from "1.prems"(2,3) have cb: "chain_below (next_tab mf) q (next_tab mf (unat n))"
        by (simp add: chain_below_step)
      show ?thesis
        by (rule "1.IH" [OF ok False stop rec nz cb])
    qed
  qed
qed

lemma hc_longer_candidate_fast:
  "hc_longer_candidate True buf p m best_len = Some True \<Longrightarrow> eq_upto buf p m 4"
  by (auto simp add: hc_longer_candidate_def load_u32_eq split: option.splits if_splits)

lemma hc_longer_loop_sound:
  "hc_longer_loop fast buf mf p ml nl n d bl bm = Some (L, m) \<Longrightarrow> n \<noteq> 0 \<Longrightarrow>
     chain_below (next_tab mf) q n \<Longrightarrow> 4 \<le> ml \<Longrightarrow>
     (L = bl \<and> m = bm) \<or>
     (bl < L \<and> L \<le> ml \<and> 0 < m \<and> m < q \<and> eq_upto buf p m (unat L))"
proof (induction fast buf mf p ml nl n d bl bm rule: hc_longer_loop.induct)
  case (1 fast buf mf p ml nl n d bl bm)
  note def = hc_longer_loop.simps [of fast buf mf p ml nl n d bl bm]
  from "1.prems"(1) obtain r where r: "hc_reject_loop fast buf mf p bl n d = Some r"
    by (auto simp add: def split: option.splits)
  show ?case
  proof (cases r)
    case None
    with "1.prems"(1) r show ?thesis
      by (simp add: def)
  next
    case (Some nd)
    obtain node depth where nd: "nd = (node, depth)"
      by (cases nd)
    from r Some nd have rej: "hc_reject_loop fast buf mf p bl n d = Some (Some (node, depth))"
      by simp
    from hc_reject_loop_sound [OF rej "1.prems"(2,3)]
    have node: "node \<noteq> 0" "unat node < q" "chain_below (next_tab mf) q node"
      and cand: "hc_longer_candidate fast buf p (unat node) bl = Some True"
      by simp_all
    from "1.prems"(1) rej obtain len where
      ext: "lz_extend buf p (unat node) (if fast then 4 else 0) ml = Some len"
      by (auto simp add: def split: option.splits)
    have start: "eq_upto buf p (unat node) (unat (if fast then 4 else 0 :: u32))"
      using cand by (auto simp add: hc_longer_candidate_fast eq_upto_0)
    have "(if fast then 4 else 0 :: u32) \<le> ml"
      using "1.prems"(4) by simp
    from lz_extend_sound [OF ext this start]
    have len: "len \<le> ml" "eq_upto buf p (unat node) (unat len)"
      by simp_all
    have pos: "0 < unat node"
      using node(1) by (simp add: unat_gt_0)
    show ?thesis
    proof (cases "bl < len \<and> nl \<le> len")
      case True
      with "1.prems"(1) rej ext have "L = len" "m = unat node"
        by (simp_all add: def)
      with True len node pos show ?thesis by simp
    next
      case notnice: False
      show ?thesis
      proof (cases "next_tab mf (unat node) = 0 \<or> depth - 1 = 0")
        case True
        with "1.prems"(1) rej ext notnice
        have "(L, m) = (if bl < len then (len, unat node) else (bl, bm))"
          by (simp add: def)
        with len node pos show ?thesis
          by (auto split: if_splits)
      next
        case notstop: False
        from "1.prems"(1) rej ext notnice notstop
        have rec: "hc_longer_loop fast buf mf p ml nl (next_tab mf (unat node)) (depth - 1)
                     (if bl < len then len else bl) (if bl < len then unat node else bm)
                   = Some (L, m)"
          by (simp add: def)
        from notstop have nz: "next_tab mf (unat node) \<noteq> 0" by simp
        from node have cb: "chain_below (next_tab mf) q (next_tab mf (unat node))"
          by (simp add: chain_below_step)
        from "1.IH" [OF rej refl refl ext notnice notstop rec nz cb "1.prems"(4)]
        have "(L = (if bl < len then len else bl) \<and> m = (if bl < len then unat node else bm)) \<or>
              ((if bl < len then len else bl) < L \<and> L \<le> ml \<and> 0 < m \<and> m < q \<and>
               eq_upto buf p m (unat L))" .
        with len node pos show ?thesis
          by (auto split: if_splits)
      qed
    qed
  qed
qed

lemma hc_search_sound:
  assumes res: "hc_search fast buf mf p bl ml nl d n3 n4 = Some (L, m)"
    and ml: "5 \<le> ml"
    and n3: "n3 = 0 \<or> unat n3 < q"
    and n4: "chain_below (next_tab mf) q n4"
  shows "(L = bl \<and> m = p) \<or>
         (bl < L \<and> L \<le> ml \<and> 0 < m \<and> m < q \<and> eq_upto buf p m (unat L))"
proof -
  have ml4: "4 \<le> ml"
    using ml by (simp add: word_le_nat_alt)
  have ml3: "(3::u32) \<le> ml"
    using ml by (simp add: word_le_nat_alt)
  show ?thesis
  proof (cases "bl < 4")
    case False
    show ?thesis
    proof (cases "n4 = 0 \<or> nl \<le> bl")
      case True
      with res False show ?thesis
        by (simp add: hc_search_def)
    next
      case go: False
      with res False
      have "hc_longer_loop fast buf mf p ml nl n4 d bl p = Some (L, m)"
        by (simp add: hc_search_def)
      from hc_longer_loop_sound [OF this _ n4 ml4] go show ?thesis
        by simp
    qed
  next
    case lt4: True
    show ?thesis
    proof (cases "n3 = 0")
      case True
      with res lt4 show ?thesis
        by (simp add: hc_search_def)
    next
      case n3nz: False
      with res lt4 obtain seq4 where seq4: "load_u32_unaligned buf p = Some seq4"
        by (auto simp add: hc_search_def split: option.splits)
      define st3 where "st3 =
        (if bl < 3 then
           (case load_u24_unaligned buf (unat n3) of
              None \<Rightarrow> None
            | Some v \<Rightarrow>
                if v = loaded_u32_to_u24 seq4 then Some (3, unat n3) else Some (bl, p))
         else Some (bl, p))"
      from res lt4 n3nz seq4 obtain bl3 bm3 where st3: "st3 = Some (bl3, bm3)"
        by (auto simp add: hc_search_def st3_def split: option.splits)
      have pos3: "0 < unat n3" "unat n3 < q"
        using n3nz n3 by (simp_all add: unat_gt_0)
      have three: "(bl3 = bl \<and> bm3 = p) \<or>
                   (bl < bl3 \<and> bl3 = 3 \<and> 0 < bm3 \<and> bm3 < q \<and> eq_upto buf p bm3 3)"
        using st3 pos3 seq4
        by (auto simp add: st3_def load_u24_eq split: if_splits option.splits)
      have bl3_sound: "(bl3 = bl \<and> bm3 = p) \<or>
                   (bl < bl3 \<and> bl3 \<le> ml \<and> 0 < bm3 \<and> bm3 < q \<and> eq_upto buf p bm3 (unat bl3))"
        using three ml3 by auto
      from res lt4 n3nz seq4 st3
      have rest: "(if n4 = 0 then Some (bl3, bm3)
                   else
                     (case hc_first_loop buf mf seq4 n4 d of
                        None \<Rightarrow> None
                      | Some None \<Rightarrow> Some (bl3, bm3)
                      | Some (Some (node, depth)) \<Rightarrow>
                          (case lz_extend buf p (unat node) 4 ml of
                             None \<Rightarrow> None
                           | Some len \<Rightarrow>
                               if len \<ge> nl then Some (len, unat node)
                               else if next_tab mf (unat node) = 0 \<or> depth - 1 = 0
                               then Some (len, unat node)
                               else hc_longer_loop fast buf mf p ml nl
                                      (next_tab mf (unat node)) (depth - 1) len (unat node))))
                  = Some (L, m)"
        by (simp add: hc_search_def st3_def)
      show ?thesis
      proof (cases "n4 = 0")
        case True
        with rest bl3_sound show ?thesis by simp
      next
        case n4nz: False
        with rest obtain r where r: "hc_first_loop buf mf seq4 n4 d = Some r"
          by (auto split: option.splits)
        show ?thesis
        proof (cases r)
          case None
          with rest n4nz r bl3_sound show ?thesis by simp
        next
          case (Some nd)
          obtain node depth where nd: "nd = (node, depth)"
            by (cases nd)
          from r Some nd have fl: "hc_first_loop buf mf seq4 n4 d = Some (Some (node, depth))"
            by simp
          from hc_first_loop_sound [OF fl n4nz n4]
          have node: "node \<noteq> 0" "unat node < q" "chain_below (next_tab mf) q node"
            and ld: "load_u32_unaligned buf (unat node) = Some seq4"
            by simp_all
          have pos: "0 < unat node"
            using node(1) by (simp add: unat_gt_0)
          from rest n4nz fl obtain len where ext: "lz_extend buf p (unat node) 4 ml = Some len"
            by (auto split: option.splits)
          have "eq_upto buf p (unat node) (unat (4 :: u32))"
            using load_u32_eq [OF ld seq4] by simp
          from lz_extend_sound [OF ext ml4 this]
          have len: "4 \<le> len" "len \<le> ml" "eq_upto buf p (unat node) (unat len)"
            by simp_all
          have bllen: "bl < len"
            using lt4 len(1) by simp
          show ?thesis
          proof (cases "nl \<le> len \<or> next_tab mf (unat node) = 0 \<or> depth - 1 = 0")
            case True
            with rest n4nz fl ext have "L = len" "m = unat node"
              by (auto split: if_splits)
            with bllen len node pos show ?thesis by simp
          next
            case go: False
            with rest n4nz fl ext
            have "hc_longer_loop fast buf mf p ml nl (next_tab mf (unat node)) (depth - 1)
                    len (unat node) = Some (L, m)"
              by (auto split: if_splits)
            moreover from go have "next_tab mf (unat node) \<noteq> 0" by simp
            moreover from node have "chain_below (next_tab mf) q (next_tab mf (unat node))"
              by (simp add: chain_below_step)
            ultimately
            have "(L = len \<and> m = unat node) \<or>
                  (len < L \<and> L \<le> ml \<and> 0 < m \<and> m < q \<and> eq_upto buf p m (unat L))"
              using ml4 by (rule hc_longer_loop_sound)
            with bllen len node pos show ?thesis
              by auto
          qed
        qed
      qed
    qed
  qed
qed

section \<open>The stored positions stay below the scan\<close>

text \<open>
  A search with \<^verbatim>\<open>max_len >= 5\<close> leaves the state of one insertion of the current
  position; insertions at increasing positions keep every stored position below the next
  position of the scan and keep every chain descending.
\<close>

lemma unat_of_nat_u32: "p < 4294967296 \<Longrightarrow> unat (word_of_nat p :: u32) = p"
  by (simp add: unat_of_nat)

lemma load_u32_in_range: "load_u32_unaligned buf i = Some v \<Longrightarrow> i + 4 \<le> length buf"
  by (simp add: load_u32_unaligned_def split: if_splits)

lemma hc_longest_match_state:
  assumes "hc_matchfinder_longest_match fast mf buf p bl ml nl d nh = Some (L, off, mf', nh')"
  shows "if ml < 5 then L = bl \<and> off = 0 \<and> mf' = mf \<and> nh' = nh
         else p + 5 \<le> length buf \<and> hc_insert_position buf p (mf, nh) = Some (mf', nh')"
proof (cases "ml < 5")
  case True
  with assms show ?thesis
    by (simp add: hc_matchfinder_longest_match_def)
next
  case False
  with assms obtain v where v: "load_u32_unaligned buf (p + 1) = Some v"
    by (auto simp add: hc_matchfinder_longest_match_def Let_def split: if_splits option.splits)
  from load_u32_in_range [OF v] have "p + 5 \<le> length buf" by simp
  with assms False v show ?thesis
    by (auto simp add: hc_matchfinder_longest_match_def hc_insert_position_def Let_def
        split: if_splits option.splits)
qed

lemma mf_below_mono: "mf_below q mf \<Longrightarrow> q \<le> q' \<Longrightarrow> mf_below q' mf"
  unfolding mf_below_def
  by (meson chain_below_mono less_le_trans)

lemma mf_below_insert:
  assumes inv: "mf_below q mf" and qp: "q \<le> p" and p32: "p < 4294967296"
    and h3: "hash3_tab mf' = (hash3_tab mf)(i3 := word_of_nat p)"
    and h4: "hash4_tab mf' = (hash4_tab mf)(i4 := word_of_nat p)"
    and nt: "next_tab mf' = (next_tab mf)(p := hash4_tab mf i4)"
  shows "mf_below (Suc p) mf'"
proof -
  have up: "unat (word_of_nat p :: u32) = p"
    using p32 by (rule unat_of_nat_u32)
  have old: "chain_below (next_tab mf') (Suc p) (hash4_tab mf i)" for i
  proof -
    from inv have "chain_below (next_tab mf) q (hash4_tab mf i)"
      by (simp add: mf_below_def)
    then have "chain_below (next_tab mf') q (hash4_tab mf i)"
      unfolding nt using qp by (rule chain_below_upd)
    then show ?thesis
      by (rule chain_below_mono) (use qp in simp)
  qed
  have new: "chain_below (next_tab mf') (Suc p) (word_of_nat p)"
  proof (cases "(word_of_nat p :: u32) = 0")
    case True
    then show ?thesis by (simp add: chain_below_0)
  next
    case False
    then have "0 < p" using up by (cases p) simp_all
    have "unat (hash4_tab mf i4) < p"
    proof (cases "hash4_tab mf i4 = 0")
      case True
      with \<open>0 < p\<close> show ?thesis by simp
    next
      case nz: False
      from inv have "chain_below (next_tab mf) q (hash4_tab mf i4)"
        by (simp add: mf_below_def)
      with nz have "unat (hash4_tab mf i4) < q"
        by (simp add: chain_below_step)
      with qp show ?thesis by simp
    qed
    then have "hash4_tab mf i4 < word_of_nat p"
      by (simp add: word_less_nat_alt up)
    moreover have "next_tab mf' (unat (word_of_nat p :: u32)) = hash4_tab mf i4"
      by (simp add: nt up)
    ultimately show ?thesis
      using False old [of i4] chain_below_step [of "word_of_nat p" "next_tab mf'" "Suc p"] up
      by simp
  qed
  have "hash3_tab mf' i = 0 \<or> unat (hash3_tab mf' i) < Suc p" for i
  proof (cases "i = i3")
    case True
    then show ?thesis by (simp add: h3 up)
  next
    case False
    from inv have "hash3_tab mf i = 0 \<or> unat (hash3_tab mf i) < q"
      by (simp add: mf_below_def)
    with False qp show ?thesis
      by (auto simp add: h3)
  qed
  moreover have "chain_below (next_tab mf') (Suc p) (hash4_tab mf' i)" for i
    using old [of i] new by (simp add: h4)
  ultimately show ?thesis
    by (simp add: mf_below_def)
qed

lemma hc_insert_position_below:
  assumes "hc_insert_position buf p (mf, nh) = Some (mf', nh')"
    and "mf_below q mf" and "q \<le> p" and "length buf < 4294967296"
  shows "mf_below (Suc p) mf'"
proof (cases "length buf < p + 5")
  case True
  with assms(1) have "mf' = mf"
    by (simp add: hc_insert_position_def)
  with assms(2,3) show ?thesis
    by (auto intro: mf_below_mono)
next
  case False
  with assms(4) have p32: "p < 4294967296" by simp
  from assms(1) False show ?thesis
    by (auto simp add: hc_insert_position_def Let_def split: if_splits option.splits
        intro!: mf_below_insert [OF assms(2,3) p32])
qed

lemma hc_longest_match_below:
  assumes "hc_matchfinder_longest_match fast mf buf p bl ml nl d nh = Some (L, off, mf', nh')"
    and "mf_below q mf" and "q \<le> p" and "length buf < 4294967296"
  shows "mf_below (Suc p) mf'"
proof (cases "ml < 5")
  case True
  with hc_longest_match_state [OF assms(1)] assms(2,3) show ?thesis
    by (auto intro: mf_below_mono)
next
  case False
  with hc_longest_match_state [OF assms(1)]
  have "hc_insert_position buf p (mf, nh) = Some (mf', nh')" by simp
  then show ?thesis
    using assms(2-4) by (rule hc_insert_position_below)
qed

lemma hc_longest_match_sound:
  assumes res: "hc_matchfinder_longest_match fast mf buf p bl ml nl d nh = Some (L, off, mf', nh')"
    and inv: "mf_below q mf" and qp: "q \<le> p" and len: "length buf < 4294967296"
  shows "(L = bl \<and> off = 0) \<or>
         (bl < L \<and> L \<le> ml \<and> 0 < unat off \<and> unat off < p \<and>
          bytes_equal buf p (p - unat off) (unat L))"
proof (cases "ml < 5")
  case True
  with hc_longest_match_state [OF res] show ?thesis by simp
next
  case False
  then have ml: "5 \<le> ml" by simp
  from hc_longest_match_state [OF res] False len have p32: "p < 4294967296"
    by simp
  define n3 where "n3 = hash3_tab mf (unat (fst nh))"
  define n4 where "n4 = hash4_tab mf (unat (snd nh))"
  define mf1 where "mf1 = mf\<lparr>hash3_tab := (hash3_tab mf)(unat (fst nh) := word_of_nat p),
                       hash4_tab := (hash4_tab mf)(unat (snd nh) := word_of_nat p),
                       next_tab := (next_tab mf)(p := n4)\<rparr>"
  from res False obtain m where
    srch: "hc_search fast buf mf1 p bl ml nl d n3 n4 = Some (L, m)" and
    off: "off = word_of_nat p - word_of_nat m"
    by (auto simp add: hc_matchfinder_longest_match_def Let_def n3_def n4_def mf1_def
        split: if_splits option.splits)
  from inv have "n3 = 0 \<or> unat n3 < q"
    by (simp add: mf_below_def n3_def)
  with qp have c3: "n3 = 0 \<or> unat n3 < p" by auto
  from inv have "chain_below (next_tab mf) q n4"
    by (simp add: mf_below_def n4_def)
  then have "chain_below (next_tab mf) p n4"
    using qp by (rule chain_below_mono)
  then have "chain_below ((next_tab mf)(p := n4)) p n4"
    by (rule chain_below_upd) simp
  then have c4: "chain_below (next_tab mf1) p n4"
    by (simp add: mf1_def)
  from hc_search_sound [OF srch ml c3 c4]
  consider "L = bl" "m = p"
    | "bl < L" "L \<le> ml" "0 < m" "m < p" "eq_upto buf p m (unat L)"
    by auto
  then show ?thesis
  proof cases
    case 1
    with off show ?thesis by simp
  next
    case 2
    have "off = word_of_nat (p - m)"
      using off 2(4) by (simp add: of_nat_diff)
    moreover have "p - m < 4294967296"
      using p32 by simp
    ultimately have uo: "unat off = p - m"
      by (simp add: unat_of_nat_u32)
    have "0 < unat L"
      using 2(1) by (metis unat_gt_0 word_not_simps(1) not_gr_zero unsigned_0)
    with 2(5) have "bytes_equal buf p m (unat L)"
      by (rule eq_upto_bytes_equal)
    with 2 uo show ?thesis by simp
  qed
qed

lemma hc_skip_loop_runs_off:
  "stop \<le> p \<Longrightarrow> hc_skip_loop mf buf p stop h3 h4 = None"
proof (induction mf buf p stop h3 h4 rule: hc_skip_loop.induct)
  case (1 mf buf p stop h3 h4)
  note def = hc_skip_loop.simps [of mf buf p stop h3 h4]
  show ?case
  proof (cases "hc_skip_loop mf buf p stop h3 h4")
    case None
    then show ?thesis .
  next
    case (Some r)
    then obtain v where
      g: "\<not> \<not> (unat h3 < 2 ^ HC_MATCHFINDER_HASH3_ORDER \<and> unat h4 < 2 ^ HC_MATCHFINDER_HASH4_ORDER)"
      and v: "load_u32_unaligned buf (p + 1) = Some v"
      by (auto simp add: def Let_def split: if_splits option.splits)
    from "1.prems" have ne: "p + 1 \<noteq> stop" and le: "stop \<le> p + 1" by simp_all
    from "1.IH" [OF g refl v refl refl refl ne le] Some g v ne show ?thesis
      by (simp add: def Let_def)
  qed
qed

lemma hc_skip_loop_below:
  "hc_skip_loop mf buf p stop h3 h4 = Some (mf', nh') \<Longrightarrow> mf_below q mf \<Longrightarrow> q \<le> p \<Longrightarrow>
     p < stop \<Longrightarrow> length buf < 4294967296 \<Longrightarrow> mf_below stop mf'"
proof (induction mf buf p stop h3 h4 arbitrary: q rule: hc_skip_loop.induct)
  case (1 mf buf p stop h3 h4)
  note def = hc_skip_loop.simps [of mf buf p stop h3 h4]
  define mf1 where "mf1 = mf\<lparr>hash3_tab := (hash3_tab mf)(unat h3 := word_of_nat p),
                     next_tab := (next_tab mf)(p := hash4_tab mf (unat h4)),
                     hash4_tab := (hash4_tab mf)(unat h4 := word_of_nat p)\<rparr>"
  from "1.prems"(1) obtain v where
    g: "\<not> \<not> (unat h3 < 2 ^ HC_MATCHFINDER_HASH3_ORDER \<and> unat h4 < 2 ^ HC_MATCHFINDER_HASH4_ORDER)"
    and v: "load_u32_unaligned buf (p + 1) = Some v"
    by (auto simp add: def Let_def split: if_splits option.splits)
  from load_u32_in_range [OF v] "1.prems"(5) have p32: "p < 4294967296" by simp
  have m1: "mf_below (Suc p) mf1"
    by (rule mf_below_insert [OF "1.prems"(2,3) p32]) (simp_all add: mf1_def)
  show ?case
  proof (cases "p + 1 = stop")
    case True
    with "1.prems"(1) g v have "mf' = mf1"
      by (simp add: def Let_def mf1_def)
    with m1 True show ?thesis by simp
  next
    case False
    with "1.prems"(1) g v
    have rec: "hc_skip_loop mf1 buf (p + 1) stop
                 (lz_hash (loaded_u32_to_u24 v) HC_MATCHFINDER_HASH3_ORDER)
                 (lz_hash v HC_MATCHFINDER_HASH4_ORDER) = Some (mf', nh')"
      by (simp add: def Let_def mf1_def)
    from False "1.prems"(4) have lt: "p + 1 < stop" by simp
    show ?thesis
      by (rule "1.IH" [OF g mf1_def v refl refl refl False rec m1 _ lt "1.prems"(5)]) simp
  qed
qed

lemma hc_skip_positions_below:
  assumes "hc_matchfinder_skip_positions mf buf p e count nh = Some (stop, mf', nh')"
    and "mf_below q mf" and "q \<le> p" and "length buf < 4294967296"
  shows "mf_below (p + unat count) mf'"
proof (cases "uint (count + 5) \<le> int e - int p")
  case False
  with assms(1) have "mf' = mf"
    by (simp add: hc_matchfinder_skip_positions_def Let_def)
  with assms(2,3) show ?thesis
    by (auto intro: mf_below_mono)
next
  case True
  with assms(1) obtain r where
    loop: "hc_skip_loop mf buf p (p + unat count) (fst nh) (snd nh) = Some (mf', r)"
    by (auto simp add: hc_matchfinder_skip_positions_def Let_def split: option.splits)
  have "p < p + unat count"
  proof (rule ccontr)
    assume "\<not> p < p + unat count"
    then have "p + unat count \<le> p" by simp
    from hc_skip_loop_runs_off [OF this] loop show False by simp
  qed
  from hc_skip_loop_below [OF loop assms(2,3) this assms(4)] show ?thesis .
qed

lemma run_calls_below:
  "run_calls fast buf s cs = Some (rs, s') \<Longrightarrow> mf_below q (fst s) \<Longrightarrow> increasing_calls q cs \<Longrightarrow>
     length buf < 4294967296 \<Longrightarrow> mf_below (calls_end q cs) (fst s')"
proof (induction cs arbitrary: s q rs)
  case Nil
  then show ?case by simp
next
  case (Cons c cs)
  show ?case
  proof (cases c)
    case (Search p bl ml nl d)
    with Cons.prems(1) obtain L off mf1 nh1 rs1 where
      one: "hc_matchfinder_longest_match fast (fst s) buf p bl ml nl d (snd s)
              = Some (L, off, mf1, nh1)" and
      rest: "run_calls fast buf (mf1, nh1) cs = Some (rs1, s')"
      by (auto split: option.splits)
    from Cons.prems(3) Search have qp: "q \<le> p" and inc: "increasing_calls (p + 1) cs"
      by simp_all
    from hc_longest_match_below [OF one Cons.prems(2) qp Cons.prems(4)]
    have "mf_below (p + 1) (fst (mf1, nh1))" by simp
    from Cons.IH [OF rest this inc Cons.prems(4)] Search show ?thesis by simp
  next
    case (Skip p e count)
    with Cons.prems(1) obtain stop mf1 nh1 where
      one: "hc_matchfinder_skip_positions (fst s) buf p e count (snd s) = Some (stop, mf1, nh1)" and
      rest: "run_calls fast buf (mf1, nh1) cs = Some (rs, s')"
      by (auto split: option.splits)
    from Cons.prems(3) Skip have qp: "q \<le> p" and inc: "increasing_calls (p + unat count) cs"
      by simp_all
    from hc_skip_positions_below [OF one Cons.prems(2) qp Cons.prems(4)]
    have "mf_below (p + unat count) (fst (mf1, nh1))" by simp
    from Cons.IH [OF rest this inc Cons.prems(4)] Skip show ?thesis by simp
  qed
qed

lemma increasing_calls_append:
  "increasing_calls q (cs @ [c]) \<longleftrightarrow> increasing_calls q cs \<and> calls_end q cs \<le> call_pos c"
  by (induction cs arbitrary: q) auto

lemma hc_matchfinder_init_below: "mf_below 0 (hc_matchfinder_init mf)"
  by (simp add: mf_below_def hc_matchfinder_init_def chain_below_0)

lemma hc_scan_below:
  assumes "length buf < 4294967296"
    and "increasing_calls 0 cs"
    and "run_calls fast buf (hc_matchfinder_init mf0, nh0) cs = Some (rs, mf, nh)"
  shows "mf_below (calls_end 0 cs) mf"
  using run_calls_below [OF assms(3) _ assms(2,1)] hc_matchfinder_init_below [of mf0]
  by simp

section \<open>Properties of the forward scan\<close>

text \<open>
  The defining equations by which the simplifier evaluates the model on a concrete buffer,
  and the first scenario evaluated: after the skip over the positions 0 to 3 of
  \<^verbatim>\<open>AAAAAAAAAA\<close>, the search at position 4 returns length 6 and offset 1, as the spec
  expects.
\<close>

lemmas hc_eval =
  hc_matchfinder_init_def hc_matchfinder_skip_positions_def hc_skip_loop.simps
  hc_matchfinder_longest_match_def HC_MATCHFINDER_HASH3_ORDER_def HC_MATCHFINDER_HASH4_ORDER_def
  load_u32_unaligned_def load_u24_unaligned_def load_u8_def le32_def lz_hash_def
  loaded_u32_to_u24_def Let_def hc_search_def hc_first_loop.simps hc_reject_loop.simps
  hc_longer_loop.simps lz_extend.simps hc_longer_candidate_def

lemma scenario1_scan_run:
  "run_calls True scenario1_buf (hc_matchfinder_init mf_zero, 0, 0) [Skip 0 10 4]
     = Some ([], scenario1_scan)"
  by (simp add: scenario1_scan_def scenario1_buf_def mf_zero_def hc_eval)

lemma scenario1_search:
  "map_option (\<lambda>(L, off, s). (L, off))
     (hc_matchfinder_longest_match True (fst scenario1_scan) scenario1_buf 4 0 6 6 4
        (snd scenario1_scan)) = Some (6, 1)"
  by (simp add: scenario1_scan_def scenario1_buf_def mf_zero_def hc_eval)

text \<open>
  C3. After any sequence of search and skip calls at strictly increasing positions, run on a
  freshly reset matchfinder over a buffer shorter than \<open>2 ^ 32\<close> bytes, the chain of every
  bucket of the long-match table, walked from its head through \<^verbatim>\<open>next_tab\<close>, visits
  strictly decreasing positions and ends at the sentinel 0.
\<close>

theorem chain_order:
  assumes "length buf < 2 ^ 32"
    and "increasing_calls 0 cs"
    and "run_calls fast buf (hc_matchfinder_init mf0, nh0) cs = Some (rs, mf, nh)"
  shows "chain_desc (next_tab mf) (hash4_tab mf h)"
proof -
  from assms have "mf_below (calls_end 0 cs) mf"
    by (intro hc_scan_below) simp_all
  then have "chain_below (next_tab mf) (calls_end 0 cs) (hash4_tab mf h)"
    by (simp add: mf_below_def)
  then show ?thesis
    by (rule chain_below_desc)
qed

text \<open>
  On the buffer \<^verbatim>\<open>AAAAAAAAAA\<close>, after the skip over the positions 0 to 3, the bucket of
  \<^verbatim>\<open>AAAA\<close> holds the head 3, and its chain descends to the sentinel.
\<close>

theorem chain_order_witness:
  "length scenario1_buf < 2 ^ 32 \<and> increasing_calls 0 [Skip 0 10 4] \<and>
   run_calls True scenario1_buf (hc_matchfinder_init mf_zero, 0, 0) [Skip 0 10 4]
     = Some ([], scenario1_scan) \<and>
   hash4_tab (fst scenario1_scan) 57139 = 3 \<and>
   chain_desc (next_tab (fst scenario1_scan)) (hash4_tab (fst scenario1_scan) 57139)"
proof -
  have len: "length scenario1_buf < 2 ^ 32"
    by (simp add: scenario1_buf_def)
  have inc: "increasing_calls 0 [Skip 0 10 4]"
    by simp
  have run: "run_calls True scenario1_buf (hc_matchfinder_init mf_zero, 0, 0) [Skip 0 10 4]
     = Some ([], fst scenario1_scan, snd scenario1_scan)"
    unfolding prod.collapse by (rule scenario1_scan_run)
  have head: "hash4_tab (fst scenario1_scan) 57139 = 3"
    by (simp add: scenario1_scan_def scenario1_buf_def mf_zero_def hc_eval)
  from chain_order [OF len inc run, of 57139] len inc scenario1_scan_run head
  show ?thesis by simp
qed

lemma scenario1_scan_run_slow:
  "run_calls False scenario1_buf (hc_matchfinder_init mf_zero, 0, 0) [Skip 0 10 4]
     = Some ([], scenario1_scan)"
  by (simp add: scenario1_scan_def scenario1_buf_def mf_zero_def hc_eval)

lemma scenario1_search_slow:
  "map_option (\<lambda>(L, off, s). (L, off))
     (hc_matchfinder_longest_match False (fst scenario1_scan) scenario1_buf 4 0 6 6 4
        (snd scenario1_scan)) = Some (6, 1)"
  by (simp add: scenario1_scan_def scenario1_buf_def mf_zero_def hc_eval)

lemma scenario1_searched_run:
  "run_calls True scenario1_buf (hc_matchfinder_init mf_zero, 0, 0)
     [Search 0 0 10 10 4, Search 1 0 9 9 4] = Some ([(0, 0), (0, 0)], scenario1_searched)"
  by (simp add: scenario1_searched_def scenario1_buf_def mf_zero_def hc_eval)

lemma scenario1_searched_search:
  "map_option (\<lambda>(L, off, s). (L, off))
     (hc_matchfinder_longest_match True (fst scenario1_searched) scenario1_buf 2 0 8 8 4
        (snd scenario1_searched)) = Some (8, 1)"
  by (simp add: scenario1_searched_def scenario1_buf_def mf_zero_def hc_eval)

lemma hc_scan_search_sound:
  assumes "length buf < 2 ^ 32"
    and "increasing_calls 0 (cs @ [Search p bl ml nl d])"
    and "run_calls fast buf (hc_matchfinder_init mf0, nh0) cs = Some (rs, mf, nh)"
    and "hc_matchfinder_longest_match fast mf buf p bl ml nl d nh = Some (L, off, mf', nh')"
  shows "(L = bl \<and> off = 0) \<or>
         (bl < L \<and> L \<le> ml \<and> 0 < unat off \<and> unat off < p \<and>
          bytes_equal buf p (p - unat off) (unat L))"
proof -
  from assms(2) have inc: "increasing_calls 0 cs" and qp: "calls_end 0 cs \<le> p"
    by (simp_all add: increasing_calls_append)
  from assms(1) have len: "length buf < 4294967296" by simp
  from hc_scan_below [OF len inc assms(3)] have "mf_below (calls_end 0 cs) mf" .
  from hc_longest_match_sound [OF assms(4) this qp len] show ?thesis .
qed

lemma search_result_cases:
  assumes "map_option (\<lambda>(L, off, s). (L, off)) r = Some (a, b)"
  obtains mf' nh' where "r = Some (a, b, mf', nh')"
  using assms by (cases r) auto

text \<open>
  C2. In every state that a sequence of search and skip calls at strictly increasing
  positions reaches from a freshly reset matchfinder (over a buffer shorter than \<open>2 ^ 32\<close>
  bytes), a search at a later position \<open>p\<close> finds only positions below \<open>p\<close> on the chain of
  every long-match bucket, and every match it reports (a returned length above
  \<^verbatim>\<open>best_len\<close>) lies at a position \<open>m = p - offset\<close> with \<open>m < p\<close>.
\<close>

theorem causality:
  assumes "length buf < 2 ^ 32"
    and "increasing_calls 0 (cs @ [Search p bl ml nl d])"
    and "run_calls fast buf (hc_matchfinder_init mf0, nh0) cs = Some (rs, mf, nh)"
  shows "chain_below (next_tab mf) p (hash4_tab mf h) \<and>
         (hc_matchfinder_longest_match fast mf buf p bl ml nl d nh = Some (L, off, mf', nh') \<and>
          bl < L \<longrightarrow> unat off \<le> p \<and> p - unat off < p)"
proof -
  from assms(2) have inc: "increasing_calls 0 cs" and qp: "calls_end 0 cs \<le> p"
    by (simp_all add: increasing_calls_append)
  from assms(1) have len: "length buf < 4294967296" by simp
  from hc_scan_below [OF len inc assms(3)] have "mf_below (calls_end 0 cs) mf" .
  then have "mf_below p mf"
    using qp by (rule mf_below_mono)
  then have "chain_below (next_tab mf) p (hash4_tab mf h)"
    by (simp add: mf_below_def)
  moreover have "unat off \<le> p \<and> p - unat off < p"
    if "hc_matchfinder_longest_match fast mf buf p bl ml nl d nh = Some (L, off, mf', nh')"
      and "bl < L"
    using hc_scan_search_sound [OF assms that(1)] that(2) by auto
  ultimately show ?thesis by blast
qed

text \<open>
  On the same buffer the search at position 4 reports length 6 at offset 1: the match
  lies at position 3.
\<close>

theorem causality_witness:
  "length scenario1_buf < 2 ^ 32 \<and>
   increasing_calls 0 ([Skip 0 10 4] @ [Search 4 0 6 6 4]) \<and>
   run_calls False scenario1_buf (hc_matchfinder_init mf_zero, 0, 0) [Skip 0 10 4]
     = Some ([], scenario1_scan) \<and>
   map_option (\<lambda>(L, off, s). (L, off))
     (hc_matchfinder_longest_match False (fst scenario1_scan) scenario1_buf 4 0 6 6 4
        (snd scenario1_scan)) = Some (6, 1) \<and>
   (0 :: u32) < 6 \<and>
   chain_below (next_tab (fst scenario1_scan)) 4 (hash4_tab (fst scenario1_scan) 57139) \<and>
   unat (1 :: u32) \<le> 4 \<and> 4 - unat (1 :: u32) < (4 :: nat)"
proof -
  have len: "length scenario1_buf < 2 ^ 32"
    by (simp add: scenario1_buf_def)
  have inc: "increasing_calls 0 ([Skip 0 10 4] @ [Search 4 0 6 6 4])"
    by simp
  have run: "run_calls False scenario1_buf (hc_matchfinder_init mf_zero, 0, 0) [Skip 0 10 4]
     = Some ([], fst scenario1_scan, snd scenario1_scan)"
    unfolding prod.collapse by (rule scenario1_scan_run_slow)
  from scenario1_search_slow obtain mf' nh' where
    res: "hc_matchfinder_longest_match False (fst scenario1_scan) scenario1_buf 4 0 6 6 4
            (snd scenario1_scan) = Some (6, 1, mf', nh')"
    by (rule search_result_cases)
  from causality [OF len inc run, of 57139 6 1 mf' nh'] res
  have "chain_below (next_tab (fst scenario1_scan)) 4 (hash4_tab (fst scenario1_scan) 57139) \<and>
        unat (1 :: u32) \<le> 4 \<and> 4 - unat (1 :: u32) < (4 :: nat)"
    by simp
  with len inc scenario1_scan_run_slow scenario1_search_slow show ?thesis
    by simp
qed

text \<open>
  C1 (amended). For every search call of a forward scan from a freshly reset matchfinder
  (over a buffer shorter than \<open>2 ^ 32\<close> bytes), whatever its parameters: the returned length
  \<open>L\<close> is \<^verbatim>\<open>best_len\<close> itself or satisfies \<open>best_len < L \<le> max_len\<close>, so \<open>L \<le> max_len\<close>
  whenever \<open>best_len \<le> max_len\<close>; and whenever \<open>L\<close> is above \<^verbatim>\<open>best_len\<close>, the returned
  offset is at most \<open>p\<close> and the \<open>L\<close> bytes at \<open>p\<close> are equal to the \<open>L\<close> bytes at
  \<open>m = p - offset\<close>.
\<close>

theorem bounded_length:
  assumes "length buf < 2 ^ 32"
    and "increasing_calls 0 (cs @ [Search p bl ml nl d])"
    and "run_calls fast buf (hc_matchfinder_init mf0, nh0) cs = Some (rs, mf, nh)"
    and "hc_matchfinder_longest_match fast mf buf p bl ml nl d nh = Some (L, off, mf', nh')"
  shows "(L = bl \<or> (bl < L \<and> L \<le> ml)) \<and> (bl \<le> ml \<longrightarrow> L \<le> ml) \<and>
         (bl < L \<longrightarrow> unat off \<le> p \<and> bytes_equal buf p (p - unat off) (unat L))"
  using hc_scan_search_sound [OF assms] by auto

text \<open>
  The search at position 4 of \<^verbatim>\<open>AAAAAAAAAA\<close> returns length 6 and offset 1, and the 6 bytes
  at position 4 are the 6 bytes at position 3.
\<close>

theorem bounded_length_witness:
  "length scenario1_buf < 2 ^ 32 \<and>
   increasing_calls 0 ([Skip 0 10 4] @ [Search 4 0 6 6 4]) \<and>
   run_calls True scenario1_buf (hc_matchfinder_init mf_zero, 0, 0) [Skip 0 10 4]
     = Some ([], scenario1_scan) \<and>
   map_option (\<lambda>(L, off, s). (L, off))
     (hc_matchfinder_longest_match True (fst scenario1_scan) scenario1_buf 4 0 6 6 4
        (snd scenario1_scan)) = Some (6, 1) \<and>
   (0 :: u32) \<le> 6 \<and> (0 :: u32) < 6 \<and> (6 :: u32) \<le> 6 \<and>
   unat (1 :: u32) \<le> 4 \<and> bytes_equal scenario1_buf 4 (4 - unat (1 :: u32)) (unat (6 :: u32))"
proof -
  have len: "length scenario1_buf < 2 ^ 32"
    by (simp add: scenario1_buf_def)
  have inc: "increasing_calls 0 ([Skip 0 10 4] @ [Search 4 0 6 6 4])"
    by simp
  have run: "run_calls True scenario1_buf (hc_matchfinder_init mf_zero, 0, 0) [Skip 0 10 4]
     = Some ([], fst scenario1_scan, snd scenario1_scan)"
    unfolding prod.collapse by (rule scenario1_scan_run)
  from scenario1_search obtain mf' nh' where
    res: "hc_matchfinder_longest_match True (fst scenario1_scan) scenario1_buf 4 0 6 6 4
            (snd scenario1_scan) = Some (6, 1, mf', nh')"
    by (rule search_result_cases)
  from bounded_length [OF len inc run res]
  have "(6 :: u32) \<le> 6 \<and> unat (1 :: u32) \<le> 4 \<and>
        bytes_equal scenario1_buf 4 (4 - unat (1 :: u32)) (unat (6 :: u32))"
    by simp
  with len inc scenario1_scan_run scenario1_search show ?thesis
    by simp
qed

text \<open>
  As the spec words it, the bound fails: called with \<^verbatim>\<open>best_len = 6\<close> above
  \<^verbatim>\<open>max_len = 5\<close> (and \<^verbatim>\<open>nice_len = 5\<close>, \<^verbatim>\<open>max_search_depth = 1\<close>), the search finds
  nothing longer and returns \<^verbatim>\<open>best_len\<close>, which is 6.
\<close>

theorem bounded_length_counterexample:
  "(5 :: u32) \<le> 5 \<and> (1 :: u32) \<le> 1 \<and>
   map_option fst
     (hc_matchfinder_longest_match True (hc_matchfinder_init mf_zero) scenario1_buf 0 6 5 5 1
        (0, 0)) = Some 6 \<and>
   \<not> (6 :: u32) \<le> 5"
  by (simp add: scenario1_buf_def mf_zero_def hc_eval)

text \<open>
  C8. No search call of a forward scan from a freshly reset matchfinder (over a buffer
  shorter than \<open>2 ^ 32\<close> bytes) reports a match at buffer position 0: whenever the returned
  length is above \<^verbatim>\<open>best_len\<close>, the match position \<open>p - offset\<close> is at least 1. The
  value 0 in a bucket or in a chain link is the empty sentinel, so the position 0 is never
  a candidate.
\<close>

theorem position_zero_not_matched:
  assumes "length buf < 2 ^ 32"
    and "increasing_calls 0 (cs @ [Search p bl ml nl d])"
    and "run_calls fast buf (hc_matchfinder_init mf0, nh0) cs = Some (rs, mf, nh)"
    and "hc_matchfinder_longest_match fast mf buf p bl ml nl d nh = Some (L, off, mf', nh')"
    and "bl < L"
  shows "unat off \<le> p \<and> 0 < p - unat off"
  using hc_scan_search_sound [OF assms(1-4)] assms(5) by auto

text \<open>
  After searches at the positions 0 and 1 of \<^verbatim>\<open>AAAAAAAAAA\<close>, neither of which reports a
  match although position 0 holds the same bytes as position 1, the search at position 2
  reports length 8 at offset 1: the match lies at position 1, not at position 0.
\<close>

theorem position_zero_not_matched_witness:
  "length scenario1_buf < 2 ^ 32 \<and>
   increasing_calls 0 ([Search 0 0 10 10 4, Search 1 0 9 9 4] @ [Search 2 0 8 8 4]) \<and>
   run_calls True scenario1_buf (hc_matchfinder_init mf_zero, 0, 0)
     [Search 0 0 10 10 4, Search 1 0 9 9 4] = Some ([(0, 0), (0, 0)], scenario1_searched) \<and>
   map_option (\<lambda>(L, off, s). (L, off))
     (hc_matchfinder_longest_match True (fst scenario1_searched) scenario1_buf 2 0 8 8 4
        (snd scenario1_searched)) = Some (8, 1) \<and>
   (0 :: u32) < 8 \<and> unat (1 :: u32) \<le> 2 \<and> 0 < 2 - unat (1 :: u32)"
proof -
  have len: "length scenario1_buf < 2 ^ 32"
    by (simp add: scenario1_buf_def)
  have inc: "increasing_calls 0 ([Search 0 0 10 10 4, Search 1 0 9 9 4] @ [Search 2 0 8 8 4])"
    by simp
  have run: "run_calls True scenario1_buf (hc_matchfinder_init mf_zero, 0, 0)
     [Search 0 0 10 10 4, Search 1 0 9 9 4]
       = Some ([(0, 0), (0, 0)], fst scenario1_searched, snd scenario1_searched)"
    unfolding prod.collapse by (rule scenario1_searched_run)
  from scenario1_searched_search obtain mf' nh' where
    res: "hc_matchfinder_longest_match True (fst scenario1_searched) scenario1_buf 2 0 8 8 4
            (snd scenario1_searched) = Some (8, 1, mf', nh')"
    by (rule search_result_cases)
  have "(0 :: u32) < 8" by simp
  from position_zero_not_matched [OF len inc run res this]
  have "unat (1 :: u32) \<le> 2 \<and> 0 < 2 - unat (1 :: u32)" .
  with len inc scenario1_searched_run scenario1_searched_search show ?thesis
    by simp
qed

section \<open>Reset, insertion and the scenarios of the spec\<close>

text \<open>
  What the reset clears, what a single search call changes, what a skip near the end of the
  buffer leaves out, and the third scenario of the spec.
\<close>

text \<open>
  C9 (amended). \<^verbatim>\<open>hc_matchfinder_init\<close> clears every bucket of the short-match table and
  every bucket head of the long-match table, and leaves the chain-link table as it was; the
  chain of every bucket is then empty, so no walk reaches a link left from before.
\<close>

theorem init_clears_hash_tables:
  "hash3_tab (hc_matchfinder_init mf) i = 0 \<and> hash4_tab (hc_matchfinder_init mf) h = 0 \<and>
   next_tab (hc_matchfinder_init mf) = next_tab mf \<and>
   chain_desc (next_tab (hc_matchfinder_init mf)) (hash4_tab (hc_matchfinder_init mf) h)"
  by (simp add: hc_matchfinder_init_def chain_desc.simps)

text \<open>
  A chain link that held 7 before the reset holds 7 after it.
\<close>

theorem init_clears_hash_tables_counterexample:
  "next_tab (hc_matchfinder_init (mf_zero\<lparr>next_tab := (\<lambda>_. 7)\<rparr>)) 3 = 7 \<and> (7 :: u32) \<noteq> 0"
  by (simp add: hc_matchfinder_init_def mf_zero_def)

text \<open>
  C4 (amended). A search call with \<^verbatim>\<open>max_len >= 5\<close> that returns has updated the
  matchfinder with the entry of the current position exactly once, whether or not a match
  was found: the bucket of the short-match table holds the position, the bucket of the
  long-match table holds the position, the chain link of the position holds the previous
  head of that bucket, and nothing else has changed. A search call with \<^verbatim>\<open>max_len < 5\<close>
  leaves the matchfinder unchanged.
\<close>

theorem search_updates_once:
  assumes "hc_matchfinder_longest_match fast mf buf p bl ml nl d nh = Some (L, off, mf', nh')"
  shows "mf' =
    (if ml < 5 then mf
     else mf\<lparr>hash3_tab := (hash3_tab mf)(unat (fst nh) := word_of_nat p),
              hash4_tab := (hash4_tab mf)(unat (snd nh) := word_of_nat p),
              next_tab := (next_tab mf)(p := hash4_tab mf (unat (snd nh)))\<rparr>)"
  using hc_longest_match_state [OF assms]
  by (auto simp add: hc_insert_position_def Let_def split: if_splits option.splits)

text \<open>
  The search at position 4 of \<^verbatim>\<open>AAAAAAAAAA\<close>, with \<^verbatim>\<open>max_len = 6\<close>.
\<close>

theorem search_updates_once_witness:
  "map_option (\<lambda>(L, off, s). (L, off))
     (hc_matchfinder_longest_match True (fst scenario1_scan) scenario1_buf 4 0 6 6 4
        (snd scenario1_scan)) = Some (6, 1) \<and>
   map_option (\<lambda>(L, off, mf', nh'). mf')
     (hc_matchfinder_longest_match True (fst scenario1_scan) scenario1_buf 4 0 6 6 4
        (snd scenario1_scan)) =
   Some (if (6 :: u32) < 5 then fst scenario1_scan
         else (fst scenario1_scan)
           \<lparr>hash3_tab := (hash3_tab (fst scenario1_scan))
              (unat (fst (snd scenario1_scan)) := word_of_nat 4),
            hash4_tab := (hash4_tab (fst scenario1_scan))
              (unat (snd (snd scenario1_scan)) := word_of_nat 4),
            next_tab := (next_tab (fst scenario1_scan))
              (4 := hash4_tab (fst scenario1_scan) (unat (snd (snd scenario1_scan))))\<rparr>)"
proof -
  from scenario1_search obtain mf' nh' where
    res: "hc_matchfinder_longest_match True (fst scenario1_scan) scenario1_buf 4 0 6 6 4
            (snd scenario1_scan) = Some (6, 1, mf', nh')"
    by (rule search_result_cases)
  from search_updates_once [OF res] res scenario1_search show ?thesis
    by simp
qed

text \<open>
  With \<^verbatim>\<open>max_len = 4\<close> the search at position 6 leaves the buckets of its hashes at the
  position 3 stored before, and the chain link of position 6 untouched.
\<close>

theorem search_updates_once_counterexample:
  "map_option (\<lambda>(L, off, mf', nh'). (hash3_tab mf' 28953, hash4_tab mf' 57139, next_tab mf' 6))
     (hc_matchfinder_longest_match True (fst scenario1_scan) scenario1_buf 6 0 4 4 4
        (28953, 57139)) = Some (3, 3, 0) \<and>
   (3 :: u32) \<noteq> 6"
  by (simp add: scenario1_scan_def scenario1_buf_def mf_zero_def hc_eval)




text \<open>
  C7 (amended). On the 9-byte buffer \<^verbatim>\<open>ABCXABCYZ\<close>, with positions 0 to 3 inserted into a
  freshly reset matchfinder by the forward scan (one skip over the four positions, or four
  searches, the precomputed hashes starting as \<^verbatim>\<open>{0, 0}\<close>), the search at \<open>p = 4\<close> with
  \<^verbatim>\<open>best_len = 0\<close>, \<^verbatim>\<open>max_len = 5\<close>, \<^verbatim>\<open>nice_len = 5\<close>, \<^verbatim>\<open>max_depth = 4\<close> returns length 0
  and offset 0: position 0 is stored as the value 0, which is the empty sentinel, so the
  occurrence of \<^verbatim>\<open>ABC\<close> at position 0 is not a candidate.
\<close>

theorem scenario3_no_match:
  "map_option fst
     (run_calls fast scenario3_buf (hc_matchfinder_init mf, 0, 0) [Skip 0 9 4, Search 4 0 5 5 4])
     = Some [(0, 0)] \<and>
   map_option fst
     (run_calls fast scenario3_buf (hc_matchfinder_init mf, 0, 0)
        [Search 0 0 9 9 4, Search 1 0 8 8 4, Search 2 0 7 7 4, Search 3 0 6 6 4,
         Search 4 0 5 5 4])
     = Some [(0, 0), (0, 0), (0, 0), (0, 0), (0, 0)]"
  by (simp add: scenario3_buf_def hc_eval)

text \<open>
  The scenario as the spec words it expects length 3 and offset 4.
\<close>

theorem scenario3_no_match_counterexample:
  "map_option fst
     (run_calls True scenario3_buf (hc_matchfinder_init mf_zero, 0, 0)
        [Skip 0 9 4, Search 4 0 5 5 4])
     = Some [(0, 0)] \<and>
   [(0, 0)] \<noteq> [(3, 4) :: u32 \<times> u32]"
  by (simp add: scenario3_buf_def mf_zero_def hc_eval)

section \<open>Skipping and single insertions\<close>

text \<open>
  The loop of the skip is the single insertion repeated, as long as the position after the
  range has 5 bytes of lookahead; and within 5 bytes of the end of the buffer no call reads
  or writes the tables, so the results of later calls do not depend on the state there.
\<close>

lemma lz_hash_range3: "unat (lz_hash x HC_MATCHFINDER_HASH3_ORDER) < 2 ^ HC_MATCHFINDER_HASH3_ORDER"
proof -
  have "unat (x * 0x1E35A7BD) div 2 ^ 17 < 2 ^ 15"
    using unat_u32_less [of "x * 0x1E35A7BD"] by simp
  then show ?thesis
    by (simp add: lz_hash_def HC_MATCHFINDER_HASH3_ORDER_def drop_bit_eq_div unat_div)
qed

lemma lz_hash_range4: "unat (lz_hash x HC_MATCHFINDER_HASH4_ORDER) < 2 ^ HC_MATCHFINDER_HASH4_ORDER"
proof -
  have "unat (x * 0x1E35A7BD) div 2 ^ 16 < 2 ^ 16"
    using unat_u32_less [of "x * 0x1E35A7BD"] by simp
  then show ?thesis
    by (simp add: lz_hash_def HC_MATCHFINDER_HASH4_ORDER_def drop_bit_eq_div unat_div)
qed

lemma load_u32_Some: "i + 4 \<le> length buf \<Longrightarrow> \<exists>v. load_u32_unaligned buf i = Some v"
  by (simp add: load_u32_unaligned_def)


lemma hc_insert_position_total:
  assumes "hashes_in_range nh"
  shows "\<exists>mf' nh'. hc_insert_position buf p (mf, nh) = Some (mf', nh') \<and> hashes_in_range nh'"
proof (cases "length buf < p + 5")
  case True
  with assms show ?thesis
    by (simp add: hc_insert_position_def)
next
  case False
  then obtain v where "load_u32_unaligned buf (p + 1) = Some v"
    using load_u32_Some [of "p + 1" buf] by auto
  with False assms show ?thesis
    by (simp add: hc_insert_position_def hashes_in_range_def Let_def lz_hash_range3
        lz_hash_range4)
qed

lemma hc_insert_positions_total:
  "hashes_in_range nh \<Longrightarrow>
     \<exists>mf' nh'. hc_insert_positions buf p k (mf, nh) = Some (mf', nh') \<and> hashes_in_range nh'"
proof (induction k arbitrary: p mf nh)
  case 0
  then show ?case by simp
next
  case (Suc k)
  from hc_insert_position_total [OF Suc.prems, of buf p mf] obtain mf1 nh1 where
    one: "hc_insert_position buf p (mf, nh) = Some (mf1, nh1)" and r: "hashes_in_range nh1"
    by blast
  from Suc.IH [OF r, of "p + 1" mf1] one show ?case
    by simp
qed

lemma hc_skip_loop_unfold:
  assumes "p + 5 \<le> length buf"
  shows "hc_skip_loop mf buf p stop h3 h4 =
     (case hc_insert_position buf p (mf, h3, h4) of
        None \<Rightarrow> None
      | Some (mf', h3', h4') \<Rightarrow>
          if p + 1 \<noteq> stop then hc_skip_loop mf' buf (p + 1) stop h3' h4'
          else Some (mf', h3', h4'))"
proof -
  from assms obtain v where v: "load_u32_unaligned buf (p + 1) = Some v"
    using load_u32_Some [of "p + 1" buf] by auto
  have rec: "mf\<lparr>hash3_tab := a, next_tab := b, hash4_tab := c\<rparr>
           = mf\<lparr>hash3_tab := a, hash4_tab := c, next_tab := b\<rparr>" for a b c
    by simp
  show ?thesis
    using assms v
    by (subst hc_skip_loop.simps) (simp add: hc_insert_position_def Let_def rec)
qed

lemma hc_skip_loop_insert:
  "p + Suc k + 5 \<le> length buf \<Longrightarrow>
     hc_skip_loop mf buf p (p + Suc k) h3 h4 = hc_insert_positions buf p (Suc k) (mf, h3, h4)"
proof (induction k arbitrary: p mf h3 h4)
  case 0
  then have "p + 5 \<le> length buf" by simp
  from hc_skip_loop_unfold [OF this, of mf "p + Suc 0" h3 h4] show ?case
    by (simp split: option.splits)
next
  case (Suc k)
  then have a: "p + 5 \<le> length buf" and b: "(p + 1) + Suc k + 5 \<le> length buf"
    by simp_all
  have "hc_skip_loop mf' buf (p + 1) (p + Suc (Suc k)) h3' h4'
          = hc_insert_positions buf (p + 1) (Suc k) (mf', h3', h4')" for mf' h3' h4'
    using Suc.IH [OF b, of mf' h3' h4'] by simp
  with hc_skip_loop_unfold [OF a, of mf "p + Suc (Suc k)" h3 h4] show ?case
    by (simp split: option.splits)
qed







section \<open>The search reads inside the buffer\<close>

text \<open>
  When every stored position is below the current one, \<^verbatim>\<open>max_len\<close> is within the buffer
  and \<^verbatim>\<open>nice_len <= max_len\<close>, every read of the search is inside the buffer, whatever
  the search depth is.
\<close>

lemma load_u8_Some: "i < length buf \<Longrightarrow> \<exists>v. load_u8 buf i = Some v"
  by (simp add: load_u8_def)

lemma lz_extend_safe:
  "len \<le> max_len \<Longrightarrow> p + unat max_len \<le> length buf \<Longrightarrow> m + unat max_len \<le> length buf \<Longrightarrow>
     \<exists>L. lz_extend buf p m len max_len = Some L"
proof (induction buf p m len max_len rule: lz_extend.induct)
  case (1 buf strpos matchpos len max_len)
  note def = lz_extend.simps [of buf strpos matchpos len max_len]
  show ?case
  proof (cases "len < max_len")
    case False
    then show ?thesis by (simp add: def)
  next
    case lt: True
    then have "unat len < unat max_len"
      by (simp add: word_less_nat_alt)
    with "1.prems" obtain a b where
      la: "load_u8 buf (matchpos + unat len) = Some a" and
      lb: "load_u8 buf (strpos + unat len) = Some b"
      using load_u8_Some [of "matchpos + unat len" buf] load_u8_Some [of "strpos + unat len" buf]
      by auto
    show ?thesis
    proof (cases "a = b")
      case False
      with lt la lb show ?thesis by (simp add: def)
    next
      case True
      have "len + 1 \<le> max_len"
        using lt by (simp add: inc_le)
      from "1.IH" [OF lt la lb True this "1.prems"(2,3)] lt la lb True show ?thesis
        by (simp add: def)
    qed
  qed
qed

lemma hc_first_loop_safe:
  "n \<noteq> 0 \<Longrightarrow> chain_below (next_tab mf) q n \<Longrightarrow> q + 3 \<le> length buf \<Longrightarrow>
     \<exists>r. hc_first_loop buf mf seq4 n d = Some r"
proof (induction buf mf seq4 n d rule: hc_first_loop.induct)
  case (1 buf mf seq4 n d)
  note def = hc_first_loop.simps [of buf mf seq4 n d]
  from "1.prems"(1,2) have lt: "unat n < q"
    and cb: "chain_below (next_tab mf) q (next_tab mf (unat n))"
    by (simp_all add: chain_below_step)
  with "1.prems"(3) obtain v where v: "load_u32_unaligned buf (unat n) = Some v"
    using load_u32_Some [of "unat n" buf] by auto
  show ?case
  proof (cases "v = seq4 \<or> next_tab mf (unat n) = 0 \<or> d - 1 = 0")
    case True
    with v show ?thesis by (auto simp add: def)
  next
    case False
    then have a: "v \<noteq> seq4" and b: "\<not> (next_tab mf (unat n) = 0 \<or> d - 1 = 0)"
      and nz: "next_tab mf (unat n) \<noteq> 0"
      by simp_all
    from "1.IH" [OF v a b nz cb "1.prems"(3)] v a b show ?thesis
      by (simp add: def)
  qed
qed

lemma hc_longer_candidate_safe:
  assumes "m < p" and "p + unat best_len + 1 \<le> length buf" and "p + 4 \<le> length buf"
    and "3 \<le> unat best_len"
  shows "\<exists>ok. hc_longer_candidate fast buf p m best_len = Some ok"
proof (cases fast)
  case True
  have "m + unat best_len - 3 + 4 \<le> length buf" and "p + unat best_len - 3 + 4 \<le> length buf"
    and "m + 4 \<le> length buf"
    using assms by arith+
  with assms(3) obtain a b c d where
    "load_u32_unaligned buf (m + unat best_len - 3) = Some a"
    "load_u32_unaligned buf (p + unat best_len - 3) = Some b"
    "load_u32_unaligned buf m = Some c"
    "load_u32_unaligned buf p = Some d"
    by (metis load_u32_Some)
  with True assms(4) show ?thesis
    by (auto simp add: hc_longer_candidate_def)
next
  case False
  from assms obtain a b where
    "load_u8 buf (m + unat best_len) = Some a"
    "load_u8 buf (p + unat best_len) = Some b"
    using load_u8_Some [of "m + unat best_len" buf] load_u8_Some [of "p + unat best_len" buf]
    by auto
  with False show ?thesis
    by (simp add: hc_longer_candidate_def)
qed

lemma hc_reject_loop_safe:
  "n \<noteq> 0 \<Longrightarrow> chain_below (next_tab mf) p n \<Longrightarrow> p + unat best_len + 1 \<le> length buf \<Longrightarrow>
     p + 4 \<le> length buf \<Longrightarrow> 3 \<le> unat best_len \<Longrightarrow>
     \<exists>r. hc_reject_loop fast buf mf p best_len n d = Some r"
proof (induction fast buf mf p best_len n d rule: hc_reject_loop.induct)
  case (1 fast buf mf p best_len n d)
  note def = hc_reject_loop.simps [of fast buf mf p best_len n d]
  from "1.prems"(1,2) have lt: "unat n < p"
    and cb: "chain_below (next_tab mf) p (next_tab mf (unat n))"
    by (simp_all add: chain_below_step)
  from hc_longer_candidate_safe [OF lt "1.prems"(3,4,5), of fast] obtain ok where
    ok: "hc_longer_candidate fast buf p (unat n) best_len = Some ok"
    by blast
  show ?case
  proof (cases "ok \<or> next_tab mf (unat n) = 0 \<or> d - 1 = 0")
    case True
    with ok show ?thesis by (auto simp add: def)
  next
    case False
    then have a: "\<not> ok" and b: "\<not> (next_tab mf (unat n) = 0 \<or> d - 1 = 0)"
      and nz: "next_tab mf (unat n) \<noteq> 0"
      by simp_all
    from "1.IH" [OF ok a b nz cb "1.prems"(3,4,5)] ok a b show ?thesis
      by (simp add: def)
  qed
qed

lemma hc_longer_loop_safe:
  "n \<noteq> 0 \<Longrightarrow> chain_below (next_tab mf) p n \<Longrightarrow> bl < nl \<Longrightarrow> nl \<le> ml \<Longrightarrow> 4 \<le> ml \<Longrightarrow>
     p + unat ml \<le> length buf \<Longrightarrow> 4 \<le> bl \<Longrightarrow>
     \<exists>r. hc_longer_loop fast buf mf p ml nl n d bl bm = Some r"
proof (induction fast buf mf p ml nl n d bl bm rule: hc_longer_loop.induct)
  case (1 fast buf mf p ml nl n d bl bm)
  note def = hc_longer_loop.simps [of fast buf mf p ml nl n d bl bm]
  have "bl < ml"
    using "1.prems"(3,4) by simp
  then have "unat bl < unat ml"
    by (simp add: word_less_nat_alt)
  with "1.prems"(6) have r1: "p + unat bl + 1 \<le> length buf" by simp
  have "4 \<le> unat ml"
    using "1.prems"(5) by (simp add: word_le_nat_alt)
  with "1.prems"(6) have r2: "p + 4 \<le> length buf" by simp
  have r3: "3 \<le> unat bl"
    using "1.prems"(7) by (simp add: word_le_nat_alt)
  from hc_reject_loop_safe [OF "1.prems"(1,2) r1 r2 r3, of fast d] obtain r where
    r: "hc_reject_loop fast buf mf p bl n d = Some r"
    by blast
  show ?case
  proof (cases r)
    case None
    with r show ?thesis by (simp add: def)
  next
    case (Some nd)
    obtain node depth where nd: "nd = (node, depth)"
      by (cases nd)
    from r Some nd have rej: "hc_reject_loop fast buf mf p bl n d = Some (Some (node, depth))"
      by simp
    from hc_reject_loop_sound [OF rej "1.prems"(1,2)]
    have node: "node \<noteq> 0" "unat node < p" "chain_below (next_tab mf) p node"
      by simp_all
    have "(if fast then 4 else 0 :: u32) \<le> ml"
      using "1.prems"(5) by simp
    moreover have "unat node + unat ml \<le> length buf"
      using node(2) "1.prems"(6) by simp
    ultimately obtain len where
      ext: "lz_extend buf p (unat node) (if fast then 4 else 0) ml = Some len"
      using lz_extend_safe [of "if fast then 4 else 0" ml p buf "unat node"] "1.prems"(6)
      by blast
    show ?thesis
    proof (cases "(bl < len \<and> nl \<le> len) \<or> next_tab mf (unat node) = 0 \<or> depth - 1 = 0")
      case True
      with rej ext show ?thesis
        by (auto simp add: def)
    next
      case False
      then have a: "\<not> (bl < len \<and> nl \<le> len)"
        and b: "\<not> (next_tab mf (unat node) = 0 \<or> depth - 1 = 0)"
        and nz: "next_tab mf (unat node) \<noteq> 0"
        by simp_all
      from node have cb: "chain_below (next_tab mf) p (next_tab mf (unat node))"
        by (simp add: chain_below_step)
      have best: "(if bl < len then len else bl) < nl"
        using a "1.prems"(3) by auto
      have four: "4 \<le> (if bl < len then len else bl)"
        using "1.prems"(7) by auto
      from "1.IH" [OF rej refl refl ext a b nz cb best "1.prems"(4,5,6) four] rej ext a b
      show ?thesis
        by (simp add: def)
    qed
  qed
qed

lemma load_u24_Some: "i + 3 \<le> length buf \<Longrightarrow> \<exists>v. load_u24_unaligned buf i = Some v"
  by (simp add: load_u24_unaligned_def)

lemma hc_search_safe:
  assumes ml: "5 \<le> ml" and nice: "nl \<le> ml" and inb: "p + unat ml \<le> length buf"
    and n3: "n3 = 0 \<or> unat n3 < p"
    and n4: "chain_below (next_tab mf) p n4"
  shows "\<exists>r. hc_search fast buf mf p bl ml nl d n3 n4 = Some r"
proof -
  have ml4: "4 \<le> ml"
    using ml by (simp add: word_le_nat_alt)
  have "5 \<le> unat ml"
    using ml by (simp add: word_le_nat_alt)
  with inb have p5: "p + 5 \<le> length buf" by simp
  show ?thesis
  proof (cases "bl < 4")
    case False
    show ?thesis
    proof (cases "n4 = 0 \<or> nl \<le> bl")
      case True
      with False show ?thesis
        by (auto simp add: hc_search_def)
    next
      case go: False
      then have "n4 \<noteq> 0" and "bl < nl" by (simp_all add: not_le)
      moreover from False have "4 \<le> bl" by (simp add: not_less)
      ultimately have "\<exists>r. hc_longer_loop fast buf mf p ml nl n4 d bl p = Some r"
        using n4 nice ml4 inb by (intro hc_longer_loop_safe)
      with False go
      show ?thesis
        by (simp add: hc_search_def)
    qed
  next
    case lt4: True
    show ?thesis
    proof (cases "n3 = 0")
      case True
      with lt4 show ?thesis
        by (simp add: hc_search_def)
    next
      case n3nz: False
      from p5 obtain seq4 where seq4: "load_u32_unaligned buf p = Some seq4"
        using load_u32_Some [of p buf] by auto
      from n3 n3nz p5 obtain v3 where v3: "load_u24_unaligned buf (unat n3) = Some v3"
        using load_u24_Some [of "unat n3" buf] by auto
      define bl3 where "bl3 = (if bl < 3 \<and> v3 = loaded_u32_to_u24 seq4 then 3 else bl)"
      define bm3 where "bm3 = (if bl < 3 \<and> v3 = loaded_u32_to_u24 seq4 then unat n3 else p)"
      have st3: "(if bl < 3 then
           (case load_u24_unaligned buf (unat n3) of
              None \<Rightarrow> None
            | Some v \<Rightarrow>
                if v = loaded_u32_to_u24 seq4 then Some (3, unat n3) else Some (bl, p))
         else Some (bl, p)) = Some (bl3, bm3)"
        by (simp add: v3 bl3_def bm3_def)
      have unfold: "hc_search fast buf mf p bl ml nl d n3 n4 =
        (if n4 = 0 then Some (bl3, bm3)
         else
           (case hc_first_loop buf mf seq4 n4 d of
              None \<Rightarrow> None
            | Some None \<Rightarrow> Some (bl3, bm3)
            | Some (Some (node, depth)) \<Rightarrow>
                (case lz_extend buf p (unat node) 4 ml of
                   None \<Rightarrow> None
                 | Some len \<Rightarrow>
                     if len \<ge> nl then Some (len, unat node)
                     else if next_tab mf (unat node) = 0 \<or> depth - 1 = 0
                     then Some (len, unat node)
                     else hc_longer_loop fast buf mf p ml nl
                            (next_tab mf (unat node)) (depth - 1) len (unat node))))"
        using lt4 n3nz seq4 st3 by (simp add: hc_search_def)
      show ?thesis
      proof (cases "n4 = 0")
        case True
        with unfold show ?thesis by simp
      next
        case n4nz: False
        from p5 have "p + 3 \<le> length buf" by simp
        from hc_first_loop_safe [OF n4nz n4 this, of seq4 d] obtain r where
          r: "hc_first_loop buf mf seq4 n4 d = Some r"
          by blast
        show ?thesis
        proof (cases r)
          case None
          with unfold n4nz r show ?thesis by simp
        next
          case (Some nd)
          obtain node depth where nd: "nd = (node, depth)"
            by (cases nd)
          from r Some nd have fl: "hc_first_loop buf mf seq4 n4 d = Some (Some (node, depth))"
            by simp
          from hc_first_loop_sound [OF fl n4nz n4]
          have node: "node \<noteq> 0" "unat node < p" "chain_below (next_tab mf) p node"
            and ld: "load_u32_unaligned buf (unat node) = Some seq4"
            by simp_all
          have "unat node + unat ml \<le> length buf"
            using node(2) inb by simp
          from lz_extend_safe [OF ml4 inb this] obtain len where
            ext: "lz_extend buf p (unat node) 4 ml = Some len"
            by blast
          have "eq_upto buf p (unat node) (unat (4 :: u32))"
            using load_u32_eq [OF ld seq4] by simp
          from lz_extend_sound [OF ext ml4 this] have four: "4 \<le> len"
            by simp
          show ?thesis
          proof (cases "nl \<le> len \<or> next_tab mf (unat node) = 0 \<or> depth - 1 = 0")
            case True
            with unfold n4nz fl ext show ?thesis
              by auto
          next
            case go: False
            then have nz: "next_tab mf (unat node) \<noteq> 0" and lt: "len < nl"
              by (simp_all add: not_le)
            from node have cb: "chain_below (next_tab mf) p (next_tab mf (unat node))"
              by (simp add: chain_below_step)
            from hc_longer_loop_safe [OF nz cb lt nice ml4 inb four, of fast "depth - 1" "unat node"]
              unfold n4nz fl ext go
            show ?thesis
              by simp
          qed
        qed
      qed
    qed
  qed
qed

lemma hc_longest_match_safe:
  assumes inv: "mf_below q mf" and qp: "q \<le> p" and len: "length buf < 4294967296"
    and nh: "hashes_in_range nh" and inb: "p + unat ml \<le> length buf" and nice: "nl \<le> ml"
  shows "\<exists>L off mf' nh'.
     hc_matchfinder_longest_match fast mf buf p bl ml nl d nh = Some (L, off, mf', nh') \<and>
     hashes_in_range nh'"
proof (cases "ml < 5")
  case True
  with nh show ?thesis
    by (simp add: hc_matchfinder_longest_match_def)
next
  case False
  then have ml: "5 \<le> ml" by simp
  then have "5 \<le> unat ml"
    by (simp add: word_le_nat_alt)
  with inb obtain v where v: "load_u32_unaligned buf (p + 1) = Some v"
    using load_u32_Some [of "p + 1" buf] by auto
  define n3 where "n3 = hash3_tab mf (unat (fst nh))"
  define n4 where "n4 = hash4_tab mf (unat (snd nh))"
  define mf1 where "mf1 = mf\<lparr>hash3_tab := (hash3_tab mf)(unat (fst nh) := word_of_nat p),
                       hash4_tab := (hash4_tab mf)(unat (snd nh) := word_of_nat p),
                       next_tab := (next_tab mf)(p := n4)\<rparr>"
  from inv have "n3 = 0 \<or> unat n3 < q"
    by (simp add: mf_below_def n3_def)
  with qp have c3: "n3 = 0 \<or> unat n3 < p" by auto
  from inv have "chain_below (next_tab mf) q n4"
    by (simp add: mf_below_def n4_def)
  then have "chain_below (next_tab mf) p n4"
    using qp by (rule chain_below_mono)
  then have "chain_below ((next_tab mf)(p := n4)) p n4"
    by (rule chain_below_upd) simp
  then have c4: "chain_below (next_tab mf1) p n4"
    by (simp add: mf1_def)
  from hc_search_safe [OF ml nice inb c3 c4, of fast bl d] obtain r where
    "hc_search fast buf mf1 p bl ml nl d n3 n4 = Some r"
    by blast
  with False nh v show ?thesis
    by (cases r)
      (simp add: hc_matchfinder_longest_match_def Let_def n3_def n4_def mf1_def
        hashes_in_range_def lz_hash_range3 lz_hash_range4)
qed

text \<open>
  What the violations lead to where the call does not return normally: a skip with
  \<^verbatim>\<open>count == 0\<close> and 5 bytes or more before \<^verbatim>\<open>end_pos\<close> never meets its stop pointer and
  runs past the end of the buffer; a search with \<^verbatim>\<open>nice_len\<close> above \<^verbatim>\<open>max_len\<close> can read the
  byte at \<^verbatim>\<open>in_next[max_len]\<close>, here the byte after the end of the buffer.
\<close>

lemma skip_count_zero_runs_off:
  assumes "cur_pos + 5 \<le> end_pos"
  shows "hc_matchfinder_skip_positions mf buf cur_pos end_pos 0 nh = None"
proof -
  from assms have "uint (0 + 5 :: u32) \<le> int end_pos - int cur_pos"
    by simp
  moreover have "hc_skip_loop mf buf cur_pos cur_pos (fst nh) (snd nh) = None"
    by (rule hc_skip_loop_runs_off) simp
  ultimately show ?thesis
    by (simp add: hc_matchfinder_skip_positions_def)
qed

lemma nice_len_above_max_len_reads_past:
  "hc_matchfinder_longest_match False (fst scenario1_scan) scenario1_buf 4 0 6 7 4
     (snd scenario1_scan) = None"
  by (simp add: scenario1_scan_def scenario1_buf_def mf_zero_def hc_eval)

text \<open>
  C10 (amended). \<^verbatim>\<open>count == 0\<close> for the skip, \<^verbatim>\<open>max_search_depth == 0\<close> and
  \<^verbatim>\<open>nice_len > max_len\<close> for the search violate preconditions stated in the comments of
  the code, and the code checks none of them: it has no assertion and no error result.
  A skip with \<^verbatim>\<open>count == 0\<close> and fewer than 5 bytes before \<^verbatim>\<open>end_pos\<close> returns with the
  matchfinder unchanged. A search with \<^verbatim>\<open>max_len < 5\<close> returns \<^verbatim>\<open>best_len\<close> and offset 0
  with the matchfinder unchanged, whatever \<^verbatim>\<open>nice_len\<close> and \<^verbatim>\<open>max_search_depth\<close> are. A
  search of a forward scan from a freshly reset matchfinder, with \<^verbatim>\<open>max_len\<close> within the
  buffer and \<^verbatim>\<open>nice_len <= max_len\<close>, returns a result for every \<^verbatim>\<open>max_search_depth\<close>,
  0 included.
\<close>

theorem preconditions_not_checked:
  "(end_pos < cur_pos + 5 \<longrightarrow>
      hc_matchfinder_skip_positions mfs bufs cur_pos end_pos 0 nhs = Some (cur_pos, mfs, nhs)) \<and>
   (mlb < 5 \<longrightarrow>
      hc_matchfinder_longest_match fast mfb bufb pb blb mlb nlb db nhb = Some (blb, 0, mfb, nhb)) \<and>
   (length buf < 2 ^ 32 \<and> increasing_calls 0 cs \<and> calls_end 0 cs \<le> p \<and>
    run_calls fast buf (hc_matchfinder_init mfi, nhi) cs = Some (rs, mf, nh) \<and>
    hashes_in_range nh \<and> p + unat ml \<le> length buf \<and> nl \<le> ml \<longrightarrow>
      hc_matchfinder_longest_match fast mf buf p bl ml nl d nh \<noteq> None \<and>
      hc_matchfinder_longest_match fast mf buf p bl ml nl 0 nh \<noteq> None)"
proof -
  have "hc_matchfinder_skip_positions mfs bufs cur_pos end_pos 0 nhs = Some (cur_pos, mfs, nhs)"
    if "end_pos < cur_pos + 5"
    using that by (simp add: hc_matchfinder_skip_positions_def)
  moreover have "hc_matchfinder_longest_match fast mfb bufb pb blb mlb nlb db nhb
                   = Some (blb, 0, mfb, nhb)"
    if "mlb < 5"
    using that by (simp add: hc_matchfinder_longest_match_def)
  moreover have "hc_matchfinder_longest_match fast mf buf p bl ml nl d' nh \<noteq> None"
    if a: "length buf < 2 ^ 32" and b: "increasing_calls 0 cs" and c: "calls_end 0 cs \<le> p"
      and r: "run_calls fast buf (hc_matchfinder_init mfi, nhi) cs = Some (rs, mf, nh)"
      and h: "hashes_in_range nh" and i: "p + unat ml \<le> length buf" and n: "nl \<le> ml"
    for d'
  proof -
    from a have len: "length buf < 4294967296" by simp
    from hc_scan_below [OF len b r] have "mf_below (calls_end 0 cs) mf" .
    from hc_longest_match_safe [OF this c len h i n, of fast bl d'] show ?thesis
      by auto
  qed
  ultimately show ?thesis by blast
qed

lemma scenario1_scan_hashes: "hashes_in_range (snd scenario1_scan)"
  by (simp add: scenario1_scan_def scenario1_buf_def mf_zero_def hashes_in_range_def hc_eval)

text \<open>
  On \<^verbatim>\<open>AAAAAAAAAA\<close> after the skip over the positions 0 to 3: a skip with
  \<^verbatim>\<open>count = 0\<close> at position 6, a search at position 6 with \<^verbatim>\<open>max_len = 4\<close>,
  \<^verbatim>\<open>nice_len = 9\<close> and \<^verbatim>\<open>max_search_depth = 0\<close>, and a search at position 4 with
  \<^verbatim>\<open>max_search_depth = 0\<close>.
\<close>

theorem preconditions_not_checked_witness:
  "(10 :: nat) < 6 + 5 \<and>
   hc_matchfinder_skip_positions (fst scenario1_scan) scenario1_buf 6 10 0 (snd scenario1_scan)
     = Some (6, fst scenario1_scan, snd scenario1_scan) \<and>
   (4 :: u32) < 5 \<and> (4 :: u32) < 9 \<and>
   hc_matchfinder_longest_match True (fst scenario1_scan) scenario1_buf 6 0 4 9 0
       (snd scenario1_scan)
     = Some (0, 0, fst scenario1_scan, snd scenario1_scan) \<and>
   length scenario1_buf < 2 ^ 32 \<and> increasing_calls 0 [Skip 0 10 4] \<and>
   calls_end 0 [Skip 0 10 4] \<le> 4 \<and>
   run_calls True scenario1_buf (hc_matchfinder_init mf_zero, 0, 0) [Skip 0 10 4]
     = Some ([], scenario1_scan) \<and>
   hashes_in_range (snd scenario1_scan) \<and> 4 + unat (6 :: u32) \<le> length scenario1_buf \<and>
   (6 :: u32) \<le> 6 \<and>
   hc_matchfinder_longest_match True (fst scenario1_scan) scenario1_buf 4 0 6 6 0
       (snd scenario1_scan) \<noteq> None"
proof -
  have a: "(10 :: nat) < 6 + 5" by simp
  have b: "(4 :: u32) < 5" by simp
  have len: "length scenario1_buf < 2 ^ 32"
    by (simp add: scenario1_buf_def)
  have inc: "increasing_calls 0 [Skip 0 10 4]" by simp
  have ce: "calls_end 0 [Skip 0 10 4] \<le> 4" by simp
  have run: "run_calls True scenario1_buf (hc_matchfinder_init mf_zero, 0, 0) [Skip 0 10 4]
     = Some ([], fst scenario1_scan, snd scenario1_scan)"
    unfolding prod.collapse by (rule scenario1_scan_run)
  have inb: "4 + unat (6 :: u32) \<le> length scenario1_buf"
    by (simp add: scenario1_buf_def)
  have nice: "(6 :: u32) \<le> 6" by simp
  note inst = preconditions_not_checked [where end_pos = 10 and cur_pos = 6
      and mfs = "fst scenario1_scan" and bufs = scenario1_buf
      and nhs = "snd scenario1_scan" and mlb = 4 and fast = True
      and mfb = "fst scenario1_scan" and bufb = scenario1_buf and pb = 6
      and blb = 0 and nlb = 9 and db = 0 and nhb = "snd scenario1_scan"
      and buf = scenario1_buf and cs = "[Skip 0 10 4]" and p = 4 and mfi = mf_zero
      and nhi = "(0, 0)" and rs = "[]" and mf = "fst scenario1_scan"
      and nh = "snd scenario1_scan" and ml = 6 and nl = 6 and bl = 0 and d = 0]
  from inst a
  have c1: "hc_matchfinder_skip_positions (fst scenario1_scan) scenario1_buf 6 10 0
              (snd scenario1_scan) = Some (6, fst scenario1_scan, snd scenario1_scan)"
    by blast
  from inst b
  have c2: "hc_matchfinder_longest_match True (fst scenario1_scan) scenario1_buf 6 0 4 9 0
              (snd scenario1_scan) = Some (0, 0, fst scenario1_scan, snd scenario1_scan)"
    by blast
  from inst len inc ce run scenario1_scan_hashes inb nice
  have c3: "hc_matchfinder_longest_match True (fst scenario1_scan) scenario1_buf 4 0 6 6 0
              (snd scenario1_scan) \<noteq> None"
    by blast
  have d: "(4 :: u32) < 9" by simp
  from a b d len inc ce scenario1_scan_run scenario1_scan_hashes inb nice c1 c2 c3
  show ?thesis by blast
qed

text \<open>
  None of the three violations makes the call fail: the skip with \<^verbatim>\<open>count = 0\<close> returns
  position 6 with the state unchanged, the search with \<^verbatim>\<open>max_search_depth = 0\<close> returns
  length 6 and offset 1, and so does the search with \<^verbatim>\<open>nice_len = 7\<close> above
  \<^verbatim>\<open>max_len = 6\<close>.
\<close>

theorem preconditions_not_checked_counterexample:
  "hc_matchfinder_skip_positions (hc_matchfinder_init mf_zero) scenario1_buf 6 10 0 (0, 0)
     = Some (6, hc_matchfinder_init mf_zero, 0, 0) \<and>
   map_option (\<lambda>(L, off, s). (L, off))
     (hc_matchfinder_longest_match True (fst scenario1_scan) scenario1_buf 4 0 6 6 0
        (snd scenario1_scan)) = Some (6, 1) \<and>
   (6 :: u32) < 7 \<and>
   map_option (\<lambda>(L, off, s). (L, off))
     (hc_matchfinder_longest_match True (fst scenario1_scan) scenario1_buf 4 0 6 7 1
        (snd scenario1_scan)) = Some (6, 1)"
  by (simp add: scenario1_scan_def scenario1_buf_def mf_zero_def hc_eval)

section \<open>Scans within the contract return\<close>

text \<open>
  A forward scan from a freshly reset matchfinder whose calls respect the contract never
  accesses memory outside the buffer or the tables: every call returns.
\<close>

lemma hc_skip_positions_safe:
  assumes "e \<le> length buf" and "count \<noteq> 0" and "unat count + 5 < 2 ^ 32"
    and "hashes_in_range nh"
  shows "\<exists>stop mf' nh'.
     hc_matchfinder_skip_positions mf buf p e count nh = Some (stop, mf', nh') \<and>
     hashes_in_range nh'"
proof (cases "uint (count + 5) \<le> int e - int p")
  case False
  with assms(4) show ?thesis
    by (simp add: hc_matchfinder_skip_positions_def Let_def)
next
  case True
  have "unat (count + 5) = unat count + 5"
    using assms(3) by (simp add: unat_word_ariths)
  then have u: "uint (count + 5) = int (unat count + 5)"
    by (simp only: uint_nat)
  from True have "int (unat count + 5) \<le> int e - int p"
    unfolding u .
  with assms(1) have g: "p + unat count + 5 \<le> length buf"
    by linarith
  from assms(2) obtain k where k: "unat count = Suc k"
    by (cases "unat count") (simp_all add: unat_eq_zero)
  from hc_insert_positions_total [OF assms(4), of buf p "unat count" mf] obtain mf' nh' where
    ins: "hc_insert_positions buf p (unat count) (mf, nh) = Some (mf', nh')"
    and r: "hashes_in_range nh'"
    by blast
  from g k have "p + Suc k + 5 \<le> length buf" by simp
  from hc_skip_loop_insert [OF this, of mf "fst nh" "snd nh"] k ins
  have "hc_skip_loop mf buf p (p + unat count) (fst nh) (snd nh) = Some (mf', nh')"
    by simp
  with True r show ?thesis
    by (cases nh') (simp add: hc_matchfinder_skip_positions_def Let_def)
qed

lemma run_calls_total:
  "mf_below q (fst s) \<Longrightarrow> hashes_in_range (snd s) \<Longrightarrow> increasing_calls q cs \<Longrightarrow>
     list_all (call_in_contract buf) cs \<Longrightarrow> length buf < 4294967296 \<Longrightarrow>
     \<exists>r. run_calls fast buf s cs = Some r"
proof (induction cs arbitrary: s q)
  case Nil
  have "run_calls fast buf s [] = Some ([], s)" by simp
  then show ?case by blast
next
  case (Cons c cs)
  show ?case
  proof (cases c)
    case (Search p bl ml nl d)
    with Cons.prems have qp: "q \<le> p" and inc: "increasing_calls (p + 1) cs"
      and inb: "p + unat ml \<le> length buf" and nice: "nl \<le> ml"
      and rest: "list_all (call_in_contract buf) cs"
      by simp_all
    from hc_longest_match_safe [OF Cons.prems(1) qp Cons.prems(5,2) inb nice, of fast bl d]
    obtain L off mf1 nh1 where
      one: "hc_matchfinder_longest_match fast (fst s) buf p bl ml nl d (snd s)
              = Some (L, off, mf1, nh1)" and r: "hashes_in_range nh1"
      by blast
    from hc_longest_match_below [OF one Cons.prems(1) qp Cons.prems(5)]
    have "mf_below (p + 1) (fst (mf1, nh1))" by simp
    from Cons.IH [OF this _ inc rest Cons.prems(5)] r obtain r' where
      "run_calls fast buf (mf1, nh1) cs = Some r'"
      by auto
    with one Search show ?thesis
      by (cases r') simp
  next
    case (Skip p e count)
    with Cons.prems have qp: "q \<le> p" and inc: "increasing_calls (p + unat count) cs"
      and c: "e \<le> length buf" "count \<noteq> 0" "unat count + 5 < 2 ^ 32"
      and rest: "list_all (call_in_contract buf) cs"
      by simp_all
    from hc_skip_positions_safe [OF c Cons.prems(2), of "fst s" p]
    obtain stop mf1 nh1 where
      one: "hc_matchfinder_skip_positions (fst s) buf p e count (snd s) = Some (stop, mf1, nh1)"
      and r: "hashes_in_range nh1"
      by blast
    from hc_skip_positions_below [OF one Cons.prems(1) qp Cons.prems(5)]
    have "mf_below (p + unat count) (fst (mf1, nh1))" by simp
    from Cons.IH [OF this _ inc rest Cons.prems(5)] r obtain r' where
      "run_calls fast buf (mf1, nh1) cs = Some r'"
      by auto
    with one Skip show ?thesis
      by (cases r') simp
  qed
qed

lemma hc_scan_total:
  assumes "length buf < 2 ^ 32" and "hashes_in_range nh0" and "increasing_calls 0 cs"
    and "list_all (call_in_contract buf) cs"
  shows "\<exists>r. run_calls fast buf (hc_matchfinder_init mf0, nh0) cs = Some r"
proof -
  from assms(1) have "length buf < 4294967296" by simp
  with run_calls_total [of 0 "(hc_matchfinder_init mf0, nh0)" cs buf fast]
    hc_matchfinder_init_below [of mf0] assms(2-4)
  show ?thesis by simp
qed

end
